theory Spec2Isabelle
  imports Main "HOL-Library.Word"
begin

section \<open>Data model of olis-iot-notifier.ino\<close>

text \<open>
  The sketch runs on an ESP8266, where \<open>unsigned long\<close> has 32 bits: timestamps and
  thresholds are 32-bit words, whose subtraction wraps around as in C.
\<close>

type_synonym ulong = "32 word"

definition LOW :: int where
  "LOW = 0"

definition HIGH :: int where
  "HIGH = 1"

text \<open>The global variables of the sketch (lines 31-54).\<close>

record state =
  led_state :: int
  current_led_millis :: ulong
  previous_led_millis :: ulong
  response :: int
  last_state :: bool
  new_state :: bool
  ton_threshold :: ulong
  tof_threshold :: ulong
  ton_start_marker :: ulong
  tof_start_marker :: ulong
  TON_running :: bool
  TOF_running :: bool
  approved_alarm_state :: bool

definition led_interval :: ulong where
  "led_interval = 100"

text \<open>
  The values of the globals when the program starts: the initialisers of lines 32-54, and
  zero for the globals declared without one (static storage).
\<close>

definition initial_globals :: state where
  "initial_globals =
     \<lparr>led_state = LOW, current_led_millis = 0, previous_led_millis = 0, response = 0,
      last_state = False, new_state = False,
      ton_threshold = 1800, tof_threshold = 1600,
      ton_start_marker = 0, tof_start_marker = 0,
      TON_running = False, TOF_running = False, approved_alarm_state = False\<rparr>"

text \<open>
  What the program does to the outside world, in order: serial output, calls of
  \<open>webhookTrigger\<close> (with its \<open>value\<close> argument), writes to the LED pin, delays, and
  library calls whose result the sketch does not use.
\<close>

datatype action =
    Print string
  | Println string
  | PrintNum ulong
  | Webhook string
  | LedWrite int
  | Delay nat
  | Call string

text \<open>
  What the outside world gives to one run of \<open>loop()\<close>, one field for each place that
  reads it: the pin (line 100), each call of \<open>millis()\<close> (lines 111, 127, 143, 144, 157,
  158, 232), the HTTP code returned by each \<open>webhookTrigger\<close> (lines 148, 162; line 224
  for the k-th reconnection of this cycle), and the successive results of
  \<open>WiFi.status() == WL_CONNECTED\<close> (lines 172 and 201).
\<close>

record cycle_input =
  sample :: bool
  t_ton_start :: ulong
  t_tof_start :: ulong
  t_ton_print :: ulong
  t_ton_check :: ulong
  t_tof_print :: ulong
  t_tof_check :: ulong
  t_led :: ulong
  resp_open :: int
  resp_closed :: int
  wifi :: "bool list"
  resp_wifi :: "nat \<Rightarrow> int"

text \<open>The same for \<open>setup()\<close>.\<close>

record setup_input =
  boot_wifi :: "bool list"
  boot_resp_wifi :: int
  first_sample :: bool
  boot_resp_power :: int

section \<open>The helping functions\<close>

text \<open>
  The result of \<open>webhookTrigger\<close> is the HTTP code, which comes from the network; the
  line that follows each call prints the outcome (lines 87-88, 149-150, 163-164, 225-226).
\<close>

definition report :: "int \<Rightarrow> string \<Rightarrow> action" where
  "report code ok = (if code = 200 then Println ok else Println ''Failed'')"

text \<open>
  The waiting loop of lines 201-204. It ends when a reading says connected; a list of
  readings that ends before that stands for a wait that has not returned (\<open>None\<close>).
\<close>

fun wait_connected :: "bool list \<Rightarrow> action list \<times> bool list option" where
  "wait_connected [] = ([], None)"
| "wait_connected (c # cs) =
     (if c then ([], Some cs)
      else (case wait_connected cs of (out, r) \<Rightarrow> (Delay 500 # Print ''*'' # out, r)))"

definition connect_to_wifi ::
  "state \<Rightarrow> bool list \<Rightarrow> int \<Rightarrow> action list \<times> (state \<times> bool list) option" where
  "connect_to_wifi s w code =
     (let pre = [LedWrite LOW, Call ''WiFi.mode(WIFI_STA)'', Call ''WiFi.disconnect()'',
                 Delay 1000, Println [], Print ''Device name: '', Println ''Pump_Notifier'',
                 Call ''WiFi.hostname(deviceName)'', Print ''Connecting to: '',
                 Println ''_SSID_'', Call ''WiFi.begin(_SSID_, _PASSWORD_)'']
      in case wait_connected w of
           (out, None) \<Rightarrow> (pre @ out, None)
         | (out, Some w') \<Rightarrow>
             (pre @ out @
              [LedWrite HIGH, Println [], Println ''WiFi Connected'',
               Print ''IP assigned by DHCP: '', Println ''WiFi.localIP()'',
               Print ''ESP Board MAC Address: '', Println ''WiFi.macAddress()'',
               Print ''Current RSSI: '', Println ''WiFi.RSSI()'',
               Webhook ''Pump-relay_connected_to_WiFi!'',
               report code ''Webhook OK for Pump-relay_connected_to_WiFi!''],
              Some (s\<lparr>response := code\<rparr>, w')))"

definition toggle_inbuilt_led_fast :: "state \<Rightarrow> ulong \<Rightarrow> action list \<times> state" where
  "toggle_inbuilt_led_fast s t =
     (let s1 = (if approved_alarm_state s = True then
                  (let sa = s\<lparr>current_led_millis := t\<rparr>
                   in if current_led_millis sa - previous_led_millis sa \<ge> led_interval then
                        (let sb = sa\<lparr>previous_led_millis := current_led_millis sa\<rparr>
                         in if led_state sb = LOW then sb\<lparr>led_state := HIGH\<rparr>
                            else sb\<lparr>led_state := LOW\<rparr>)
                      else sa)
                else s);
          s2 = (if approved_alarm_state s1 = False then s1\<lparr>led_state := HIGH\<rparr> else s1)
      in ([LedWrite (led_state s2)], s2))"

section \<open>setup()\<close>

definition setup_fn :: "setup_input \<Rightarrow> action list \<times> state option" where
  "setup_fn b =
     (let pre = [Call ''pinMode(LED_BUILTIN, OUTPUT)'', Call ''Serial.begin(115200)'']
      in case connect_to_wifi initial_globals (boot_wifi b) (boot_resp_wifi b) of
           (out, None) \<Rightarrow> (pre @ out, None)
         | (out, Some (s1, w')) \<Rightarrow>
             (let s2 = s1\<lparr>last_state := first_sample b\<rparr>;
                  s3 = s2\<lparr>new_state := last_state s2\<rparr>;
                  s4 = s3\<lparr>response := boot_resp_power b\<rparr>
              in (pre @ out @
                  [Call ''ota_setup()'', Call ''pinMode(MONITORED_INPUT, INPUT_PULLUP)'',
                   Delay 1000, Webhook ''Notifier_powered_and_running!'',
                   report (response s4) ''Webhook OK for Notifier_powered_and_running!''],
                  Some s4)))"

section \<open>loop()\<close>

subsection \<open>Detection of an input change (lines 100-139)\<close>

definition rising_edge_before_approved :: "cycle_input \<Rightarrow> state \<Rightarrow> action list \<times> state" where
  "rising_edge_before_approved i s =
     (if new_state s = True \<and> approved_alarm_state s = False then
        ([Println ''HIGH (circuit got OPEN) and not in the approved ALARM state''],
         s\<lparr>TOF_running := False, TON_running := True, ton_start_marker := t_ton_start i\<rparr>)
      else ([], s))"

definition rising_edge_after_approved :: "state \<Rightarrow> action list \<times> state" where
  "rising_edge_after_approved s =
     (if new_state s = True \<and> approved_alarm_state s = True then
        ([Println ''HIGH (circuit got OPEN) when still in approved ALARM state''],
         s\<lparr>TOF_running := False, TON_running := False\<rparr>)
      else ([], s))"

definition falling_edge_after_approved :: "cycle_input \<Rightarrow> state \<Rightarrow> action list \<times> state" where
  "falling_edge_after_approved i s =
     (if new_state s = False \<and> approved_alarm_state s = True then
        ([Println ''LOW (circuit got CLOSED) when in approved ALARM state''],
         s\<lparr>TOF_running := True, TON_running := False, tof_start_marker := t_tof_start i\<rparr>)
      else ([], s))"

definition falling_edge_before_approved :: "state \<Rightarrow> action list \<times> state" where
  "falling_edge_before_approved s =
     (if new_state s = False \<and> approved_alarm_state s = False then
        ([Println ''LOW (circuit got CLOSED) when not in approved ALARM state''],
         s\<lparr>TOF_running := False, TON_running := False\<rparr>)
      else ([], s))"

definition input_change :: "state \<Rightarrow> cycle_input \<Rightarrow> action list \<times> state" where
  "input_change s i =
     (let s0 = s\<lparr>new_state := sample i\<rparr>
      in if new_state s0 \<noteq> last_state s0 then
           (case rising_edge_before_approved i s0 of (o1, s1) \<Rightarrow>
            case rising_edge_after_approved s1 of (o2, s2) \<Rightarrow>
            case falling_edge_after_approved i s2 of (o3, s3) \<Rightarrow>
            case falling_edge_before_approved s3 of (o4, s4) \<Rightarrow>
              (Print ''New input state: '' # o1 @ o2 @ o3 @ o4,
               s4\<lparr>last_state := new_state s4\<rparr>))
         else ([], s0))"

subsection \<open>TON implementation (lines 142-153)\<close>

definition TON_implementation :: "state \<Rightarrow> cycle_input \<Rightarrow> action list \<times> state" where
  "TON_implementation s i =
     (if TON_running s = True then
        (let out = [Print ''TON running for:'', PrintNum (t_ton_print i - ton_start_marker s),
                    Println '' [ms]'']
         in if t_ton_check i - ton_start_marker s \<ge> ton_threshold s then
              (let s1 = s\<lparr>TON_running := False, approved_alarm_state := True,
                          response := resp_open i\<rparr>
               in (out @ [Println ''Entering approved ALARM state.'',
                          Webhook ''Pump-relay_circuit_OPEN!'',
                          report (response s1) ''Webhooks: OK for Pump-relay_circuit_OPEN!''],
                   s1))
            else (out, s))
      else ([], s))"

subsection \<open>TOF implementation (lines 156-166)\<close>

definition TOF_implementation :: "state \<Rightarrow> cycle_input \<Rightarrow> action list \<times> state" where
  "TOF_implementation s i =
     (if TOF_running s = True then
        (let out = [Print ''TOF running for:'', PrintNum (t_tof_print i - tof_start_marker s),
                    Println '' [ms]'']
         in if t_tof_check i - tof_start_marker s \<ge> tof_threshold s then
              (let s1 = s\<lparr>TOF_running := False, approved_alarm_state := False,
                          response := resp_closed i\<rparr>
               in (out @ [Println ''Leaving approved ALARM state.'',
                          Webhook ''Pump-relay_circuit_CLOSED_OK!'',
                          report (response s1)
                            ''Webhooks: OK for Pump-relay_circuit_CLOSED_OK!''],
                   s1))
            else (out, s))
      else ([], s))"

subsection \<open>Check WiFi connection status (lines 172-176)\<close>

function check_wifi ::
  "state \<Rightarrow> bool list \<Rightarrow> (nat \<Rightarrow> int) \<Rightarrow> nat \<Rightarrow> action list \<times> state option" where
  "check_wifi s [] codes k = ([], None)"
| "check_wifi s (c # cs) codes k =
     (if c then ([], Some s)
      else (case connect_to_wifi s cs (codes k) of
              (out, None) \<Rightarrow> (Println ''Lost connection to WiFi!'' # out, None)
            | (out, Some (s', w')) \<Rightarrow>
                (case check_wifi s' w' codes (Suc k) of
                   (out', r) \<Rightarrow> (Println ''Lost connection to WiFi!'' # out @ out', r))))"
  by pat_completeness auto

subsection \<open>The main loop (lines 94-180)\<close>

definition loop :: "state \<Rightarrow> cycle_input \<Rightarrow> action list \<times> state option" where
  "loop s i =
     (case input_change s i of (o1, s1) \<Rightarrow>
      case TON_implementation s1 i of (o2, s2) \<Rightarrow>
      case TOF_implementation s2 i of (o3, s3) \<Rightarrow>
      case toggle_inbuilt_led_fast s3 (t_led i) of (o4, s4) \<Rightarrow>
       (case check_wifi s4 (wifi i) (resp_wifi i) 0 of
          (o5, None) \<Rightarrow> (Call ''ArduinoOTA.handle()'' # o1 @ o2 @ o3 @ o4 @ o5, None)
        | (o5, Some s5) \<Rightarrow>
            (Call ''ArduinoOTA.handle()'' # o1 @ o2 @ o3 @ o4 @ o5 @ [Delay 100], Some s5)))"

text \<open>\<open>loop()\<close> called again and again, once for each element of the list.\<close>

fun run :: "state \<Rightarrow> cycle_input list \<Rightarrow> action list \<times> state option" where
  "run s [] = ([], Some s)"
| "run s (i # ins) =
     (case loop s i of
        (out, None) \<Rightarrow> (out, None)
      | (out, Some s') \<Rightarrow> (case run s' ins of (out', r) \<Rightarrow> (out @ out', r)))"

text \<open>The program from power-on: \<open>setup()\<close>, then \<open>loop()\<close> repeated.\<close>

definition boot :: "setup_input \<Rightarrow> cycle_input list \<Rightarrow> action list \<times> state option" where
  "boot b ins =
     (case setup_fn b of
        (out, None) \<Rightarrow> (out, None)
      | (out, Some s) \<Rightarrow> (case run s ins of (out', r) \<Rightarrow> (out @ out', r)))"

section \<open>The four-state reading of the flags\<close>

text \<open>
  The specification reads the three flags as one of four states: \<open>Cleared\<close> (alarm not
  approved, no timer running), \<open>Confirming\<close> (alarm not approved, turn-on timer running),
  \<open>Armed\<close> (alarm approved, turn-off timer not running) and \<open>Clearing\<close> (alarm approved,
  turn-off timer running). This definition follows the specification, not the code.
\<close>

datatype AlarmState = Cleared | Confirming | Armed | Clearing

definition spec_AlarmState :: "state \<Rightarrow> AlarmState" where
  "spec_AlarmState s =
     (if approved_alarm_state s then (if TOF_running s then Clearing else Armed)
      else (if TON_running s then Confirming else Cleared))"

text \<open>The two notifications of the state machine (lines 148 and 162).\<close>

definition EnteredAlarm :: action where
  "EnteredAlarm = Webhook ''Pump-relay_circuit_OPEN!''"

definition ClearedAlarm :: action where
  "ClearedAlarm = Webhook ''Pump-relay_circuit_CLOSED_OK!''"

text \<open>
  The invariant of the flags: the timers exclude each other, the turn-on timer runs only
  before the alarm is approved and after a sample that read true, the turn-off timer only
  while the alarm is approved and after a sample that read false.
\<close>

definition timers_consistent :: "state \<Rightarrow> bool" where
  "timers_consistent s \<longleftrightarrow>
     \<not> (TON_running s \<and> TOF_running s) \<and>
     (TON_running s \<longrightarrow> \<not> approved_alarm_state s \<and> last_state s) \<and>
     (TOF_running s \<longrightarrow> approved_alarm_state s \<and> \<not> last_state s)"

text \<open>
  Reading a list of actions from left to right, starting with \<open>a\<close> for "the alarm is
  approved": \<open>EnteredAlarm\<close> is allowed only when it is not and makes it so,
  \<open>ClearedAlarm\<close> only when it is and ends it. The result is the last value, or \<open>None\<close>
  when one of the two came out of turn.
\<close>

fun armed_after :: "bool \<Rightarrow> action list \<Rightarrow> bool option" where
  "armed_after a [] = Some a"
| "armed_after a (x # xs) =
     (if x = EnteredAlarm then (if a then None else armed_after True xs)
      else if x = ClearedAlarm then (if a then armed_after False xs else None)
      else armed_after a xs)"

text \<open>
  The clock of the board: \<open>T\<close> milliseconds after power-on, \<open>millis()\<close> returns \<open>T\<close>
  modulo \<open>2 ^ 32\<close> (it overflows after about 49.7 days).
\<close>

definition millis_at :: "nat \<Rightarrow> ulong" where
  "millis_at T = of_nat T"



text \<open>
  Where a timer was started, read off the inputs alone: going through the cycles with the
  previous sample \<open>prev\<close>, \<open>last_rising_edge\<close> keeps the clock reading of line 111 of the
  latest cycle whose sample is true after a false one, and \<open>last_falling_edge\<close> the
  reading of line 127 of the latest cycle whose sample is false after a true one
  (\<open>acc\<close> before any such cycle).
\<close>

fun last_rising_edge :: "bool \<Rightarrow> ulong option \<Rightarrow> cycle_input list \<Rightarrow> ulong option" where
  "last_rising_edge prev acc [] = acc"
| "last_rising_edge prev acc (i # ins) =
     last_rising_edge (sample i) (if sample i \<and> \<not> prev then Some (t_ton_start i) else acc) ins"

fun last_falling_edge :: "bool \<Rightarrow> ulong option \<Rightarrow> cycle_input list \<Rightarrow> ulong option" where
  "last_falling_edge prev acc [] = acc"
| "last_falling_edge prev acc (i # ins) =
     last_falling_edge (sample i) (if \<not> sample i \<and> prev then Some (t_tof_start i) else acc) ins"


section \<open>Concrete runs\<close>

text \<open>
  A power-on with the network up and the input low, and a cycle in which every clock
  reading is \<open>t\<close>, every notification is accepted and the network is up.
\<close>

definition wit_boot :: setup_input where
  "wit_boot = \<lparr>boot_wifi = [True], boot_resp_wifi = 200, first_sample = False,
               boot_resp_power = 200\<rparr>"

text \<open>The same power-on with the input already high.\<close>

definition wit_boot_high :: setup_input where
  "wit_boot_high = \<lparr>boot_wifi = [True], boot_resp_wifi = 200, first_sample = True,
                    boot_resp_power = 200\<rparr>"

definition steady_cycle :: "bool \<Rightarrow> ulong \<Rightarrow> cycle_input" where
  "steady_cycle raw t =
     \<lparr>sample = raw, t_ton_start = t, t_tof_start = t, t_ton_print = t, t_ton_check = t,
      t_tof_print = t, t_tof_check = t, t_led = t, resp_open = 200, resp_closed = 200,
      wifi = [True], resp_wifi = (\<lambda>k. 200)\<rparr>"

text \<open>
  The states the program is in after \<open>setup()\<close> (\<open>wit_cleared\<close>), after the input rose
  at 0 ms (\<open>wit_confirming\<close>), was still high at 1800 ms (\<open>wit_armed\<close>) and fell at
  2000 ms (\<open>wit_clearing\<close>).
\<close>

definition wit_cleared :: state where
  "wit_cleared =
     \<lparr>led_state = 0, current_led_millis = 0, previous_led_millis = 0, response = 200,
      last_state = False, new_state = False, ton_threshold = 1800, tof_threshold = 1600,
      ton_start_marker = 0, tof_start_marker = 0, TON_running = False, TOF_running = False,
      approved_alarm_state = False\<rparr>"

definition wit_confirming :: state where
  "wit_confirming =
     \<lparr>led_state = 1, current_led_millis = 0, previous_led_millis = 0, response = 200,
      last_state = True, new_state = True, ton_threshold = 1800, tof_threshold = 1600,
      ton_start_marker = 0, tof_start_marker = 0, TON_running = True, TOF_running = False,
      approved_alarm_state = False\<rparr>"

definition wit_armed :: state where
  "wit_armed =
     \<lparr>led_state = 0, current_led_millis = 1800, previous_led_millis = 1800, response = 200,
      last_state = True, new_state = True, ton_threshold = 1800, tof_threshold = 1600,
      ton_start_marker = 0, tof_start_marker = 0, TON_running = False, TOF_running = False,
      approved_alarm_state = True\<rparr>"

definition wit_clearing :: state where
  "wit_clearing =
     \<lparr>led_state = 1, current_led_millis = 2000, previous_led_millis = 2000, response = 200,
      last_state = False, new_state = False, ton_threshold = 1800, tof_threshold = 1600,
      ton_start_marker = 0, tof_start_marker = 2000, TON_running = False, TOF_running = True,
      approved_alarm_state = True\<rparr>"

text \<open>
  The states after an input that rose 10000 ms after power-on (\<open>wit_confirming_late\<close>),
  and after an approved alarm whose input fell at 10000 ms (\<open>wit_clearing_late\<close>).
\<close>

definition wit_confirming_late :: state where
  "wit_confirming_late =
     \<lparr>led_state = 1, current_led_millis = 0, previous_led_millis = 0, response = 200,
      last_state = True, new_state = True, ton_threshold = 1800, tof_threshold = 1600,
      ton_start_marker = 10000, tof_start_marker = 0, TON_running = True,
      TOF_running = False, approved_alarm_state = False\<rparr>"

definition wit_clearing_late :: state where
  "wit_clearing_late =
     \<lparr>led_state = 1, current_led_millis = 10000, previous_led_millis = 10000,
      response = 200, last_state = False, new_state = False, ton_threshold = 1800,
      tof_threshold = 1600, ton_start_marker = 0, tof_start_marker = 10000,
      TON_running = False, TOF_running = True, approved_alarm_state = True\<rparr>"

text \<open>Readings of the network status during an outage with two reconnections.\<close>

definition wit_outage :: "bool list" where
  "wit_outage = [False, False, True, False, True, True]"

section \<open>Termination of the WiFi check\<close>

text \<open>
  \<open>wait_connected\<close> returns what is left of the readings it was given, so each
  reconnection uses up at least one of them.
\<close>

lemma wait_connected_shorter:
  "wait_connected w = (out, Some w') \<Longrightarrow> length w' < length w"
proof (induction w arbitrary: out)
  case Nil
  then show ?case by simp
next
  case (Cons c cs)
  then show ?case
    by (cases "wait_connected cs") (auto split: if_splits)
qed

lemma connect_to_wifi_shorter:
  "connect_to_wifi s w code = (out, Some (s', w')) \<Longrightarrow> length w' < length w"
  by (cases "wait_connected w")
     (auto simp: connect_to_wifi_def Let_def split: option.splits dest: wait_connected_shorter)

termination check_wifi
  by (relation "measure (\<lambda>(s, w, codes, k). length w)")
     (auto dest!: connect_to_wifi_shorter sym [of "(_, Some _)"])

section \<open>Evaluating concrete runs\<close>

lemmas eval_defs = boot_def setup_fn_def connect_to_wifi_def loop_def input_change_def
  rising_edge_before_approved_def rising_edge_after_approved_def
  falling_edge_after_approved_def falling_edge_before_approved_def TON_implementation_def
  TOF_implementation_def toggle_inbuilt_led_fast_def initial_globals_def report_def
  wit_boot_def steady_cycle_def Let_def HIGH_def LOW_def led_interval_def

lemma boot_wit_cleared: "snd (boot wit_boot []) = Some wit_cleared"
  by (simp add: eval_defs wit_cleared_def)

lemma boot_wit_confirming:
  "snd (boot wit_boot [steady_cycle True 0]) = Some wit_confirming"
  by (simp add: eval_defs wit_confirming_def)

lemma boot_wit_armed:
  "snd (boot wit_boot [steady_cycle True 0, steady_cycle True 1800]) = Some wit_armed"
  by (simp add: eval_defs wit_armed_def)

lemma boot_wit_clearing:
  "snd (boot wit_boot [steady_cycle True 0, steady_cycle True 1800, steady_cycle False 2000])
     = Some wit_clearing"
  by (simp add: eval_defs wit_clearing_def)

lemma boot_wit_confirming_late:
  "snd (boot wit_boot [steady_cycle True 10000]) = Some wit_confirming_late"
  by (simp add: eval_defs wit_confirming_late_def)

lemma boot_wit_clearing_late:
  "snd (boot wit_boot [steady_cycle True 0, steady_cycle True 1800, steady_cycle False 10000])
     = Some wit_clearing_late"
  by (simp add: eval_defs wit_clearing_late_def)

section \<open>What the reconnection changes\<close>

lemma frame_connect:
  "connect_to_wifi s w code = (out, Some (s', w')) \<Longrightarrow> s' = s\<lparr>response := code\<rparr>"
  by (cases "wait_connected w") (auto simp: connect_to_wifi_def Let_def split: option.splits)

lemma frame_check_wifi:
  "check_wifi s w codes k = (out, Some s') \<Longrightarrow> s' = s\<lparr>response := response s'\<rparr>"
proof (induction s w codes k arbitrary: out rule: check_wifi.induct)
  case (1 s codes k)
  then show ?case by simp
next
  case (2 s c cs codes k)
  show ?case
  proof (cases c)
    case True
    with 2 show ?thesis by simp
  next
    case False
    show ?thesis
      using 2 False
      by (auto split: prod.splits option.splits dest!: frame_connect)
  qed
qed

text \<open>
  The loop of lines 172-176 returns as soon as the network stays up for two readings in a
  row, however many readings said otherwise before.
\<close>

lemma wait_connected_stays_up:
  "\<exists>out r. wait_connected (cs @ [True, True]) = (out, Some r) \<and>
      (r = [True] \<or> (\<exists>v. r = v @ [True, True] \<and> length v \<le> length cs))"
proof (induction cs)
  case Nil
  show ?case by simp
next
  case (Cons c cs)
  then obtain out r where w: "wait_connected (cs @ [True, True]) = (out, Some r)"
    and r: "r = [True] \<or> (\<exists>v. r = v @ [True, True] \<and> length v \<le> length cs)"
    by blast
  show ?case
  proof (cases c)
    case True
    then show ?thesis by simp
  next
    case False
    with w r show ?thesis by auto
  qed
qed

lemma check_wifi_returns:
  "\<exists>out s'. check_wifi s (w @ [True, True]) codes k = (out, Some s')"
proof (induction "length w" arbitrary: w s k rule: less_induct)
  case less
  show ?case
  proof (cases w)
    case Nil
    then show ?thesis by simp
  next
    case (Cons c cs)
    show ?thesis
    proof (cases c)
      case True
      with Cons show ?thesis by simp
    next
      case False
      from wait_connected_stays_up [of cs] obtain out r
        where wc: "wait_connected (cs @ [True, True]) = (out, Some r)"
          and r: "r = [True] \<or> (\<exists>v. r = v @ [True, True] \<and> length v \<le> length cs)"
        by blast
      then obtain out1 where
        c: "connect_to_wifi s (cs @ [True, True]) (codes k)
              = (out1, Some (s\<lparr>response := codes k\<rparr>, r))"
        by (simp add: connect_to_wifi_def Let_def)
      have "\<exists>out2 s'. check_wifi (s\<lparr>response := codes k\<rparr>) r codes (Suc k) = (out2, Some s')"
      proof -
        from r consider "r = [True]" | v where "r = v @ [True, True]" "length v \<le> length cs"
          by blast
        then show ?thesis
        proof cases
          case 1
          then show ?thesis by simp
        next
          case 2
          with Cons have "length v < length w" by simp
          from less [OF this] 2(1) show ?thesis by simp
        qed
      qed
      with Cons False c show ?thesis by auto
    qed
  qed
qed

section \<open>The invariant of the flags\<close>

lemma inv_input_change:
  "timers_consistent s \<Longrightarrow> timers_consistent (snd (input_change s i))"
  by (auto simp: timers_consistent_def input_change_def rising_edge_before_approved_def
      rising_edge_after_approved_def falling_edge_after_approved_def
      falling_edge_before_approved_def Let_def)

lemma inv_TON:
  "timers_consistent s \<Longrightarrow> timers_consistent (snd (TON_implementation s i))"
  by (auto simp: timers_consistent_def TON_implementation_def Let_def)

lemma inv_TOF:
  "timers_consistent s \<Longrightarrow> timers_consistent (snd (TOF_implementation s i))"
  by (auto simp: timers_consistent_def TOF_implementation_def Let_def)

lemma inv_toggle:
  "timers_consistent s \<Longrightarrow> timers_consistent (snd (toggle_inbuilt_led_fast s t))"
  by (auto simp: timers_consistent_def toggle_inbuilt_led_fast_def Let_def)

lemma inv_check_wifi:
  "check_wifi s w codes k = (out, Some s') \<Longrightarrow> timers_consistent s \<Longrightarrow> timers_consistent s'"
  by (drule frame_check_wifi, erule ssubst) (simp add: timers_consistent_def)

lemma inv_setup:
  "snd (setup_fn b) = Some s \<Longrightarrow> timers_consistent s"
  by (auto simp: setup_fn_def Let_def initial_globals_def timers_consistent_def
      split: prod.splits option.splits dest!: frame_connect)

lemma inv_loop:
  assumes "timers_consistent s" and "snd (loop s i) = Some s'"
  shows "timers_consistent s'"
proof -
  obtain o1 s1 where 1: "input_change s i = (o1, s1)" by (cases "input_change s i")
  obtain o2 s2 where 2: "TON_implementation s1 i = (o2, s2)" by (cases "TON_implementation s1 i")
  obtain o3 s3 where 3: "TOF_implementation s2 i = (o3, s3)" by (cases "TOF_implementation s2 i")
  obtain o4 s4 where 4: "toggle_inbuilt_led_fast s3 (t_led i) = (o4, s4)"
    by (cases "toggle_inbuilt_led_fast s3 (t_led i)")
  obtain o5 r where 5: "check_wifi s4 (wifi i) (resp_wifi i) 0 = (o5, r)"
    by (cases "check_wifi s4 (wifi i) (resp_wifi i) 0")
  from assms(2) 1 2 3 4 5 have r: "r = Some s'"
    by (simp add: loop_def split: option.splits)
  have "timers_consistent s1" using inv_input_change [OF assms(1), of i] 1 by simp
  then have "timers_consistent s2" using inv_TON [of s1 i] 2 by simp
  then have "timers_consistent s3" using inv_TOF [of s2 i] 3 by simp
  then have "timers_consistent s4" using inv_toggle [of s3 "t_led i"] 4 by simp
  then show ?thesis using inv_check_wifi 5 r by blast
qed

lemma inv_run:
  "timers_consistent s \<Longrightarrow> snd (run s ins) = Some s' \<Longrightarrow> timers_consistent s'"
proof (induction ins arbitrary: s)
  case Nil
  then show ?case by simp
next
  case (Cons i ins)
  then show ?case
    by (auto split: prod.splits option.splits dest: inv_loop [where i = i])
qed

lemma inv_boot:
  assumes "snd (boot b ins) = Some s"
  shows "timers_consistent s"
proof -
  from assms obtain s0 where 0: "snd (setup_fn b) = Some s0" and 1: "snd (run s0 ins) = Some s"
    by (auto simp: boot_def split: prod.splits option.splits)
  from 0 have "timers_consistent s0" by (rule inv_setup)
  then show ?thesis using 1 by (rule inv_run)
qed

section \<open>What each part of the cycle sends\<close>

lemma armed_after_append:
  "armed_after a (xs @ ys) = Option.bind (armed_after a xs) (\<lambda>a'. armed_after a' ys)"
  by (induction xs arbitrary: a) auto

lemma armed_after_quiet:
  "EnteredAlarm \<notin> set xs \<Longrightarrow> ClearedAlarm \<notin> set xs \<Longrightarrow> armed_after a xs = Some a"
  by (induction xs arbitrary: a) auto

lemma webhook_wait: "Webhook l \<notin> set (fst (wait_connected w))"
  by (induction w) (auto split: prod.splits)

lemma webhook_connect:
  "Webhook l \<in> set (fst (connect_to_wifi s w c)) \<Longrightarrow> l = ''Pump-relay_connected_to_WiFi!''"
  using webhook_wait [of l w]
  by (auto simp: connect_to_wifi_def Let_def report_def split: prod.splits option.splits if_splits)

lemma webhook_check_wifi:
  "Webhook l \<in> set (fst (check_wifi s w codes k)) \<Longrightarrow> l = ''Pump-relay_connected_to_WiFi!''"
proof (induction s w codes k rule: check_wifi.induct)
  case (1 s codes k)
  then show ?case by simp
next
  case (2 s c cs codes k)
  show ?case
  proof (cases c)
    case True
    with 2 show ?thesis by simp
  next
    case False
    obtain out r where c: "connect_to_wifi s cs (codes k) = (out, r)"
      by (cases "connect_to_wifi s cs (codes k)")
    have out: "Webhook l \<in> set out \<Longrightarrow> l = ''Pump-relay_connected_to_WiFi!''"
      using webhook_connect [of l s cs "codes k"] c by simp
    show ?thesis
    proof (cases r)
      case None
      with 2(2) False c out show ?thesis by auto
    next
      case (Some p)
      obtain s' w' where p: "p = (s', w')" by (cases p)
      from 2(1) [OF False c [symmetric] _ p [symmetric]] Some
      have ih: "Webhook l \<in> set (fst (check_wifi s' w' codes (Suc k)))
                  \<Longrightarrow> l = ''Pump-relay_connected_to_WiFi!''"
        by simp
      from 2(2) False c Some p out ih show ?thesis
        by (auto split: prod.splits)
    qed
  qed
qed

lemma quiet_connect:
  "EnteredAlarm \<notin> set (fst (connect_to_wifi s w c)) \<and>
   ClearedAlarm \<notin> set (fst (connect_to_wifi s w c))"
  using webhook_connect [of _ s w c] by (auto simp: EnteredAlarm_def ClearedAlarm_def)

lemma quiet_check_wifi:
  "EnteredAlarm \<notin> set (fst (check_wifi s w codes k)) \<and>
   ClearedAlarm \<notin> set (fst (check_wifi s w codes k))"
  using webhook_check_wifi [of _ s w codes k] by (auto simp: EnteredAlarm_def ClearedAlarm_def)

lemma webhook_input_change: "Webhook l \<notin> set (fst (input_change s i))"
  by (auto simp: input_change_def rising_edge_before_approved_def
      rising_edge_after_approved_def falling_edge_after_approved_def
      falling_edge_before_approved_def Let_def split: prod.splits if_splits)

lemma webhook_toggle: "Webhook l \<notin> set (fst (toggle_inbuilt_led_fast s t))"
  by (simp add: toggle_inbuilt_led_fast_def Let_def)

lemma loop_unfold:
  assumes "input_change s i = (o1, s1)" and "TON_implementation s1 i = (o2, s2)"
    and "TOF_implementation s2 i = (o3, s3)"
    and "toggle_inbuilt_led_fast s3 (t_led i) = (o4, s4)"
    and "check_wifi s4 (wifi i) (resp_wifi i) 0 = (o5, r)"
  shows "loop s i = (Call ''ArduinoOTA.handle()'' # o1 @ o2 @ o3 @ o4 @ o5 @
                       (case r of None \<Rightarrow> [] | Some s5 \<Rightarrow> [Delay 100]), r)"
  using assms by (simp add: loop_def split: option.splits)

lemma TON_fires:
  "TON_running s \<Longrightarrow> ton_threshold s \<le> t_ton_check i - ton_start_marker s \<Longrightarrow>
   TON_implementation s i =
     ([Print ''TON running for:'', PrintNum (t_ton_print i - ton_start_marker s),
       Println '' [ms]'', Println ''Entering approved ALARM state.'', EnteredAlarm,
       report (resp_open i) ''Webhooks: OK for Pump-relay_circuit_OPEN!''],
      s\<lparr>TON_running := False, approved_alarm_state := True, response := resp_open i\<rparr>)"
  by (simp add: TON_implementation_def Let_def EnteredAlarm_def)

lemma TON_idle:
  "\<not> (TON_running s \<and> ton_threshold s \<le> t_ton_check i - ton_start_marker s) \<Longrightarrow>
   snd (TON_implementation s i) = s \<and> Webhook l \<notin> set (fst (TON_implementation s i))"
  by (auto simp: TON_implementation_def Let_def)

lemma TOF_fires:
  "TOF_running s \<Longrightarrow> tof_threshold s \<le> t_tof_check i - tof_start_marker s \<Longrightarrow>
   TOF_implementation s i =
     ([Print ''TOF running for:'', PrintNum (t_tof_print i - tof_start_marker s),
       Println '' [ms]'', Println ''Leaving approved ALARM state.'', ClearedAlarm,
       report (resp_closed i) ''Webhooks: OK for Pump-relay_circuit_CLOSED_OK!''],
      s\<lparr>TOF_running := False, approved_alarm_state := False, response := resp_closed i\<rparr>)"
  by (simp add: TOF_implementation_def Let_def ClearedAlarm_def)

lemma TOF_idle:
  "\<not> (TOF_running s \<and> tof_threshold s \<le> t_tof_check i - tof_start_marker s) \<Longrightarrow>
   snd (TOF_implementation s i) = s \<and> Webhook l \<notin> set (fst (TOF_implementation s i))"
  by (auto simp: TOF_implementation_def Let_def)

lemma approved_input_change [simp]:
  "approved_alarm_state (snd (input_change s i)) = approved_alarm_state s"
  by (auto simp: input_change_def rising_edge_before_approved_def
      rising_edge_after_approved_def falling_edge_after_approved_def
      falling_edge_before_approved_def Let_def)

lemma flags_toggle [simp]:
  "approved_alarm_state (snd (toggle_inbuilt_led_fast s t)) = approved_alarm_state s"
  "TON_running (snd (toggle_inbuilt_led_fast s t)) = TON_running s"
  "TOF_running (snd (toggle_inbuilt_led_fast s t)) = TOF_running s"
  by (auto simp: toggle_inbuilt_led_fast_def Let_def)

lemma armed_after_TON:
  assumes "timers_consistent s"
  shows "armed_after (approved_alarm_state s) (fst (TON_implementation s i))
           = Some (approved_alarm_state (snd (TON_implementation s i)))"
proof (cases "TON_running s \<and> ton_threshold s \<le> t_ton_check i - ton_start_marker s")
  case True
  with assms have "\<not> approved_alarm_state s" by (simp add: timers_consistent_def)
  with True show ?thesis
    by (simp add: TON_fires report_def) (simp add: EnteredAlarm_def ClearedAlarm_def)
next
  case False
  then have "snd (TON_implementation s i) = s"
    and "EnteredAlarm \<notin> set (fst (TON_implementation s i))"
    and "ClearedAlarm \<notin> set (fst (TON_implementation s i))"
    using TON_idle [of s i] by (simp_all add: EnteredAlarm_def ClearedAlarm_def)
  then show ?thesis by (simp add: armed_after_quiet)
qed

lemma armed_after_TOF:
  assumes "timers_consistent s"
  shows "armed_after (approved_alarm_state s) (fst (TOF_implementation s i))
           = Some (approved_alarm_state (snd (TOF_implementation s i)))"
proof (cases "TOF_running s \<and> tof_threshold s \<le> t_tof_check i - tof_start_marker s")
  case True
  with assms have "approved_alarm_state s" by (simp add: timers_consistent_def)
  with True show ?thesis
    by (simp add: TOF_fires report_def) (simp add: EnteredAlarm_def ClearedAlarm_def)
next
  case False
  then have "snd (TOF_implementation s i) = s"
    and "EnteredAlarm \<notin> set (fst (TOF_implementation s i))"
    and "ClearedAlarm \<notin> set (fst (TOF_implementation s i))"
    using TOF_idle [of s i] by (simp_all add: EnteredAlarm_def ClearedAlarm_def)
  then show ?thesis by (simp add: armed_after_quiet)
qed

lemma armed_after_loop:
  assumes "timers_consistent s"
  shows "\<exists>a. armed_after (approved_alarm_state s) (fst (loop s i)) = Some a \<and>
             (\<forall>s'. snd (loop s i) = Some s' \<longrightarrow> approved_alarm_state s' = a)"
proof -
  obtain o1 s1 where 1: "input_change s i = (o1, s1)" by (cases "input_change s i")
  obtain o2 s2 where 2: "TON_implementation s1 i = (o2, s2)" by (cases "TON_implementation s1 i")
  obtain o3 s3 where 3: "TOF_implementation s2 i = (o3, s3)" by (cases "TOF_implementation s2 i")
  obtain o4 s4 where 4: "toggle_inbuilt_led_fast s3 (t_led i) = (o4, s4)"
    by (cases "toggle_inbuilt_led_fast s3 (t_led i)")
  obtain o5 r where 5: "check_wifi s4 (wifi i) (resp_wifi i) 0 = (o5, r)"
    by (cases "check_wifi s4 (wifi i) (resp_wifi i) 0")
  note L = loop_unfold [OF 1 2 3 4 5]
  have c1: "timers_consistent s1" using inv_input_change [OF assms, of i] 1 by simp
  then have c2: "timers_consistent s2" using inv_TON [of s1 i] 2 by simp
  have a1: "armed_after (approved_alarm_state s) o1 = Some (approved_alarm_state s1)"
    using webhook_input_change [of _ s i] approved_input_change [of s i] 1
    by (simp add: armed_after_quiet EnteredAlarm_def ClearedAlarm_def)
  have a2: "armed_after (approved_alarm_state s1) o2 = Some (approved_alarm_state s2)"
    using armed_after_TON [OF c1, of i] 2 by simp
  have a3: "armed_after (approved_alarm_state s2) o3 = Some (approved_alarm_state s3)"
    using armed_after_TOF [OF c2, of i] 3 by simp
  have a4: "armed_after (approved_alarm_state s3) o4 = Some (approved_alarm_state s3)"
    using webhook_toggle [of _ s3 "t_led i"] 4
    by (simp add: armed_after_quiet EnteredAlarm_def ClearedAlarm_def)
  have a5: "armed_after (approved_alarm_state s3) o5 = Some (approved_alarm_state s3)"
    using webhook_check_wifi [of _ s4 "wifi i" "resp_wifi i" 0] 5
    by (intro armed_after_quiet) (auto simp: EnteredAlarm_def ClearedAlarm_def)
  have a6: "armed_after (approved_alarm_state s3) (case r of None \<Rightarrow> [] | Some s5 \<Rightarrow> [Delay 100])
              = Some (approved_alarm_state s3)"
    by (simp add: EnteredAlarm_def ClearedAlarm_def split: option.splits)
  have out: "armed_after (approved_alarm_state s) (fst (loop s i)) = Some (approved_alarm_state s3)"
    using a1 a2 a3 a4 a5 a6
    by (simp add: L armed_after_append) (simp add: EnteredAlarm_def ClearedAlarm_def)
  have "approved_alarm_state s' = approved_alarm_state s3" if "snd (loop s i) = Some s'" for s'
  proof -
    from that L have "r = Some s'" by simp
    with 5 have "s' = s4\<lparr>response := response s'\<rparr>" using frame_check_wifi by blast
    then have "approved_alarm_state s' = approved_alarm_state s4"
      by (metis state.select_convs(13) state.surjective state.update_convs(4))
    then show ?thesis using flags_toggle(1) [of s3 "t_led i"] 4 by simp
  qed
  with out show ?thesis by blast
qed

lemma armed_after_run:
  "timers_consistent s \<Longrightarrow>
   \<exists>a. armed_after (approved_alarm_state s) (fst (run s ins)) = Some a \<and>
       (\<forall>s'. snd (run s ins) = Some s' \<longrightarrow> approved_alarm_state s' = a)"
proof (induction ins arbitrary: s)
  case Nil
  then show ?case by simp
next
  case (Cons i ins)
  obtain out r where l: "loop s i = (out, r)" by (cases "loop s i")
  from armed_after_loop [OF Cons.prems, of i] l obtain a
    where a: "armed_after (approved_alarm_state s) out = Some a"
      and a': "\<And>s'. r = Some s' \<Longrightarrow> approved_alarm_state s' = a"
    by auto
  show ?case
  proof (cases r)
    case None
    with l a show ?thesis by simp
  next
    case (Some s')
    have "timers_consistent s'" using inv_loop [OF Cons.prems, of i s'] l Some by simp
    from Cons.IH [OF this] a' [OF Some] obtain a2
      where "armed_after a (fst (run s' ins)) = Some a2"
        and "\<forall>t. snd (run s' ins) = Some t \<longrightarrow> approved_alarm_state t = a2"
      by auto
    with l Some a show ?thesis
      by (auto simp: armed_after_append split: prod.splits)
  qed
qed

lemma armed_after_boot:
  "\<exists>a. armed_after False (fst (boot b ins)) = Some a \<and>
       (\<forall>s. snd (boot b ins) = Some s \<longrightarrow> approved_alarm_state s = a)"
proof -
  obtain out r where su: "setup_fn b = (out, r)" by (cases "setup_fn b")
  have q: "armed_after False out = Some False"
  proof (rule armed_after_quiet)
    show "EnteredAlarm \<notin> set out" "ClearedAlarm \<notin> set out"
      using su quiet_connect [of initial_globals "boot_wifi b" "boot_resp_wifi b"]
      by (auto simp: setup_fn_def Let_def report_def EnteredAlarm_def ClearedAlarm_def
          split: prod.splits option.splits if_splits)
  qed
  show ?thesis
  proof (cases r)
    case None
    with su q show ?thesis by (auto simp: boot_def)
  next
    case (Some s0)
    have c: "timers_consistent s0" using inv_setup [of b s0] su Some by simp
    have f: "\<not> approved_alarm_state s0"
      using su Some
      by (auto simp: setup_fn_def Let_def initial_globals_def
          split: prod.splits option.splits dest!: frame_connect)
    from armed_after_run [OF c, of ins] f su Some q show ?thesis
      by (auto simp: boot_def armed_after_append split: prod.splits)
  qed
qed

lemma TON_count:
  "count_list (fst (TON_implementation s i)) EnteredAlarm \<le> 1"
  by (simp add: TON_implementation_def Let_def EnteredAlarm_def report_def)

lemma TON_webhook:
  "Webhook l \<in> set (fst (TON_implementation s i)) \<longleftrightarrow>
     l = ''Pump-relay_circuit_OPEN!'' \<and> TON_running s \<and>
     ton_threshold s \<le> t_ton_check i - ton_start_marker s"
  by (auto simp: TON_implementation_def Let_def report_def)

lemma TOF_count:
  "count_list (fst (TOF_implementation s i)) ClearedAlarm \<le> 1"
  by (simp add: TOF_implementation_def Let_def ClearedAlarm_def report_def)

lemma TOF_webhook:
  "Webhook l \<in> set (fst (TOF_implementation s i)) \<longleftrightarrow>
     l = ''Pump-relay_circuit_CLOSED_OK!'' \<and> TOF_running s \<and>
     tof_threshold s \<le> t_tof_check i - tof_start_marker s"
  by (auto simp: TOF_implementation_def Let_def report_def)

lemma flags_check_wifi:
  assumes "check_wifi s w codes k = (out, Some s')"
  shows "approved_alarm_state s' = approved_alarm_state s"
    and "TON_running s' = TON_running s" and "TOF_running s' = TOF_running s"
    and "ton_start_marker s' = ton_start_marker s"
    and "tof_start_marker s' = tof_start_marker s" and "last_state s' = last_state s"
proof -
  from assms have "s' = s\<lparr>response := response s'\<rparr>" by (rule frame_check_wifi)
  then obtain x where "s' = s\<lparr>response := x\<rparr>" ..
  then show "approved_alarm_state s' = approved_alarm_state s"
    and "TON_running s' = TON_running s" and "TOF_running s' = TOF_running s"
    and "ton_start_marker s' = ton_start_marker s"
    and "tof_start_marker s' = tof_start_marker s" and "last_state s' = last_state s"
    by simp_all
qed

section \<open>Cycles in which no timer runs\<close>

lemma input_change_falling_before:
  "last_state s \<Longrightarrow> \<not> sample i \<Longrightarrow> \<not> approved_alarm_state s \<Longrightarrow>
   input_change s i =
     ([Print ''New input state: '',
       Println ''LOW (circuit got CLOSED) when not in approved ALARM state''],
      s\<lparr>new_state := False, TOF_running := False, TON_running := False, last_state := False\<rparr>)"
  by (simp add: input_change_def rising_edge_before_approved_def
      rising_edge_after_approved_def falling_edge_after_approved_def
      falling_edge_before_approved_def Let_def)

lemma input_change_rising_after:
  "\<not> last_state s \<Longrightarrow> sample i \<Longrightarrow> approved_alarm_state s \<Longrightarrow>
   input_change s i =
     ([Print ''New input state: '',
       Println ''HIGH (circuit got OPEN) when still in approved ALARM state''],
      s\<lparr>new_state := True, TOF_running := False, TON_running := False, last_state := True\<rparr>)"
  by (simp add: input_change_def rising_edge_before_approved_def
      rising_edge_after_approved_def falling_edge_after_approved_def
      falling_edge_before_approved_def Let_def)

lemma input_change_no_edge:
  "sample i = last_state s \<Longrightarrow> input_change s i = ([], s\<lparr>new_state := sample i\<rparr>)"
  by (simp add: input_change_def Let_def)

lemma timers_idle:
  assumes "\<not> TON_running s1" and "\<not> TOF_running s1"
    and "TON_implementation s1 i = (o2, s2)" and "TOF_implementation s2 i = (o3, s3)"
  shows "o2 = [] \<and> o3 = [] \<and> s2 = s1 \<and> s3 = s1"
  using assms by (auto simp: TON_implementation_def TOF_implementation_def)

lemma loop_idle_timers:
  assumes "input_change s i = (o1, s1)" and "\<not> TON_running s1" and "\<not> TOF_running s1"
    and "\<forall>l. Webhook l \<notin> set o1"
  shows "EnteredAlarm \<notin> set (fst (loop s i)) \<and> ClearedAlarm \<notin> set (fst (loop s i)) \<and>
         (\<forall>s'. snd (loop s i) = Some s' \<longrightarrow>
            approved_alarm_state s' = approved_alarm_state s1 \<and>
            TON_running s' = TON_running s1 \<and> TOF_running s' = TOF_running s1 \<and>
            ton_start_marker s' = ton_start_marker s1 \<and>
            tof_start_marker s' = tof_start_marker s1 \<and> last_state s' = last_state s1)"
proof -
  obtain o2 s2 where 2: "TON_implementation s1 i = (o2, s2)" by (cases "TON_implementation s1 i")
  obtain o3 s3 where 3: "TOF_implementation s2 i = (o3, s3)" by (cases "TOF_implementation s2 i")
  obtain o4 s4 where 4: "toggle_inbuilt_led_fast s3 (t_led i) = (o4, s4)"
    by (cases "toggle_inbuilt_led_fast s3 (t_led i)")
  obtain o5 r where 5: "check_wifi s4 (wifi i) (resp_wifi i) 0 = (o5, r)"
    by (cases "check_wifi s4 (wifi i) (resp_wifi i) 0")
  note L = loop_unfold [OF assms(1) 2 3 4 5]
  from timers_idle [OF assms(2,3) 2 3] have idle: "o2 = []" "o3 = []" "s3 = s1" by simp_all
  have n4: "\<forall>l. Webhook l \<notin> set o4" using webhook_toggle [of _ s3 "t_led i"] 4 by simp
  have n5: "EnteredAlarm \<notin> set o5 \<and> ClearedAlarm \<notin> set o5"
    using quiet_check_wifi [of s4 "wifi i" "resp_wifi i" 0] 5 by simp
  have quiet: "EnteredAlarm \<notin> set (fst (loop s i)) \<and> ClearedAlarm \<notin> set (fst (loop s i))"
    using assms(4) n4 n5 idle
    by (auto simp: L EnteredAlarm_def ClearedAlarm_def split: option.splits)
  have s4: "s4 = s1\<lparr>led_state := led_state s4, current_led_millis := current_led_millis s4,
                     previous_led_millis := previous_led_millis s4\<rparr>"
    using 4 idle by (auto simp: toggle_inbuilt_led_fast_def Let_def)
  have "approved_alarm_state s' = approved_alarm_state s1 \<and>
        TON_running s' = TON_running s1 \<and> TOF_running s' = TOF_running s1 \<and>
        ton_start_marker s' = ton_start_marker s1 \<and>
        tof_start_marker s' = tof_start_marker s1 \<and> last_state s' = last_state s1"
    if "snd (loop s i) = Some s'" for s'
  proof -
    from that L 5 have "check_wifi s4 (wifi i) (resp_wifi i) 0 = (o5, Some s')" by simp
    note f = flags_check_wifi [OF this]
    obtain x y z where "s4 = s1\<lparr>led_state := x, current_led_millis := y,
                                 previous_led_millis := z\<rparr>"
      using s4 by blast
    then show ?thesis using f by simp
  qed
  with quiet show ?thesis by blast
qed

section \<open>The clock across an overflow\<close>

lemma wrap_difference:
  assumes "T0 \<le> T1" and "T1 - T0 < 2 ^ 32"
  shows "unat (millis_at T1 - millis_at T0) = T1 - T0"
proof -
  have "millis_at T1 - millis_at T0 = (of_nat (T1 - T0) :: ulong)"
    using assms(1) by (simp add: millis_at_def of_nat_diff)
  then show ?thesis using assms(2) by (simp add: unat_of_nat)
qed

section \<open>Runs without a rising edge\<close>

lemma run_append:
  "run s (xs @ ys) =
     (case run s xs of
        (out, None) \<Rightarrow> (out, None)
      | (out, Some s') \<Rightarrow> (case run s' ys of (out', r) \<Rightarrow> (out @ out', r)))"
  by (induction xs arbitrary: s) (auto split: prod.splits option.splits)

lemma setup_state:
  assumes "snd (setup_fn b) = Some s"
  shows "\<not> approved_alarm_state s \<and> \<not> TON_running s \<and> \<not> TOF_running s \<and>
         last_state s = first_sample b"
  using assms
  by (auto simp: setup_fn_def Let_def initial_globals_def
      split: prod.splits option.splits dest!: frame_connect)

lemma quiet_setup:
  "EnteredAlarm \<notin> set (fst (setup_fn b)) \<and> ClearedAlarm \<notin> set (fst (setup_fn b))"
  using quiet_connect [of initial_globals "boot_wifi b" "boot_resp_wifi b"]
  by (auto simp: setup_fn_def Let_def report_def EnteredAlarm_def ClearedAlarm_def
      split: prod.splits option.splits if_splits)

lemma cleared_step:
  assumes "\<not> approved_alarm_state s" and "\<not> TON_running s" and "\<not> TOF_running s"
    and "sample i \<longrightarrow> last_state s"
  shows "EnteredAlarm \<notin> set (fst (loop s i)) \<and> ClearedAlarm \<notin> set (fst (loop s i)) \<and>
         (\<forall>s'. snd (loop s i) = Some s' \<longrightarrow>
            \<not> approved_alarm_state s' \<and> \<not> TON_running s' \<and> \<not> TOF_running s' \<and>
            last_state s' = sample i)"
proof (cases "sample i = last_state s")
  case True
  let ?s1 = "s\<lparr>new_state := sample i\<rparr>"
  have 1: "input_change s i = ([], ?s1)" using True by (rule input_change_no_edge)
  have "\<not> TON_running ?s1" "\<not> TOF_running ?s1" "\<forall>l. Webhook l \<notin> set []"
    using assms by simp_all
  from loop_idle_timers [OF 1 this] assms True show ?thesis by simp
next
  case False
  with assms(4) have e: "last_state s" "\<not> sample i" by auto
  let ?s1 = "s\<lparr>new_state := False, TOF_running := False, TON_running := False,
                last_state := False\<rparr>"
  note 1 = input_change_falling_before [OF e assms(1)]
  have "\<not> TON_running ?s1" "\<not> TOF_running ?s1" by simp_all
  moreover have "\<forall>l. Webhook l \<notin> set [Print ''New input state: '',
      Println ''LOW (circuit got CLOSED) when not in approved ALARM state'']"
    by simp
  ultimately have "EnteredAlarm \<notin> set (fst (loop s i)) \<and> ClearedAlarm \<notin> set (fst (loop s i)) \<and>
         (\<forall>s'. snd (loop s i) = Some s' \<longrightarrow>
            approved_alarm_state s' = approved_alarm_state ?s1 \<and>
            TON_running s' = TON_running ?s1 \<and> TOF_running s' = TOF_running ?s1 \<and>
            ton_start_marker s' = ton_start_marker ?s1 \<and>
            tof_start_marker s' = tof_start_marker ?s1 \<and> last_state s' = last_state ?s1)"
    by (rule loop_idle_timers [OF 1])
  with assms e show ?thesis by simp
qed

lemma cleared_run_high:
  assumes "\<forall>i\<in>set ins. sample i"
  shows "\<not> approved_alarm_state s \<Longrightarrow> \<not> TON_running s \<Longrightarrow> \<not> TOF_running s \<Longrightarrow> last_state s \<Longrightarrow>
         EnteredAlarm \<notin> set (fst (run s ins)) \<and> ClearedAlarm \<notin> set (fst (run s ins)) \<and>
         (\<forall>s'. snd (run s ins) = Some s' \<longrightarrow>
            \<not> approved_alarm_state s' \<and> \<not> TON_running s' \<and> \<not> TOF_running s' \<and> last_state s')"
  using assms
proof (induction ins arbitrary: s)
  case Nil
  then show ?case by simp
next
  case (Cons i ins)
  obtain out r where l: "loop s i = (out, r)" by (cases "loop s i")
  from Cons.prems have "sample i \<longrightarrow> last_state s" "sample i" by simp_all
  from cleared_step [OF Cons.prems(1-3) this(1)] l this(2)
  have q: "EnteredAlarm \<notin> set out" "ClearedAlarm \<notin> set out"
    and st: "\<And>s'. r = Some s' \<Longrightarrow>
      \<not> approved_alarm_state s' \<and> \<not> TON_running s' \<and> \<not> TOF_running s' \<and> last_state s'"
    by simp_all
  show ?case
  proof (cases r)
    case None
    with l q show ?thesis by simp
  next
    case (Some s')
    from st [OF Some] Cons.prems(5) have "EnteredAlarm \<notin> set (fst (run s' ins)) \<and>
        ClearedAlarm \<notin> set (fst (run s' ins)) \<and>
        (\<forall>t. snd (run s' ins) = Some t \<longrightarrow>
           \<not> approved_alarm_state t \<and> \<not> TON_running t \<and> \<not> TOF_running t \<and> last_state t)"
      by (intro Cons.IH) simp_all
    with l Some q show ?thesis by (auto split: prod.splits)
  qed
qed

lemma cleared_run_low:
  assumes "\<forall>i\<in>set ins. \<not> sample i"
  shows "\<not> approved_alarm_state s \<Longrightarrow> \<not> TON_running s \<Longrightarrow> \<not> TOF_running s \<Longrightarrow>
         EnteredAlarm \<notin> set (fst (run s ins)) \<and> ClearedAlarm \<notin> set (fst (run s ins)) \<and>
         (\<forall>s'. snd (run s ins) = Some s' \<longrightarrow>
            \<not> approved_alarm_state s' \<and> \<not> TON_running s' \<and> \<not> TOF_running s' \<and>
            last_state s' = (if ins = [] then last_state s else False))"
  using assms
proof (induction ins arbitrary: s)
  case Nil
  then show ?case by simp
next
  case (Cons i ins)
  obtain out r where l: "loop s i = (out, r)" by (cases "loop s i")
  from Cons.prems have "sample i \<longrightarrow> last_state s" "\<not> sample i" by simp_all
  from cleared_step [OF Cons.prems(1-3) this(1)] l this(2)
  have q: "EnteredAlarm \<notin> set out" "ClearedAlarm \<notin> set out"
    and st: "\<And>s'. r = Some s' \<Longrightarrow>
      \<not> approved_alarm_state s' \<and> \<not> TON_running s' \<and> \<not> TOF_running s' \<and> \<not> last_state s'"
    by simp_all
  show ?case
  proof (cases r)
    case None
    with l q show ?thesis by simp
  next
    case (Some s')
    from st [OF Some] Cons.prems(4) have "EnteredAlarm \<notin> set (fst (run s' ins)) \<and>
        ClearedAlarm \<notin> set (fst (run s' ins)) \<and>
        (\<forall>t. snd (run s' ins) = Some t \<longrightarrow>
           \<not> approved_alarm_state t \<and> \<not> TON_running t \<and> \<not> TOF_running t \<and>
           last_state t = (if ins = [] then last_state s' else False))"
      by (intro Cons.IH) simp_all
    with l Some q st [OF Some] show ?thesis by (auto split: prod.splits)
  qed
qed

section \<open>The cycle and the HTTP codes\<close>














section \<open>Where the start markers come from\<close>

lemma last_rising_edge_snoc:
  "last_rising_edge prev acc (xs @ [i]) =
     (if sample i \<and> \<not> last (prev # map sample xs) then Some (t_ton_start i)
      else last_rising_edge prev acc xs)"
  by (induction xs arbitrary: prev acc) auto

lemma last_falling_edge_snoc:
  "last_falling_edge prev acc (xs @ [i]) =
     (if \<not> sample i \<and> last (prev # map sample xs) then Some (t_tof_start i)
      else last_falling_edge prev acc xs)"
  by (induction xs arbitrary: prev acc) auto

lemma edge_step:
  assumes "input_change s i = (o1, s1)"
  shows "last_state s1 = sample i \<and>
   ton_threshold s1 = ton_threshold s \<and> tof_threshold s1 = tof_threshold s \<and>
   (TON_running s1 \<longrightarrow>
      (if sample i \<and> \<not> last_state s then ton_start_marker s1 = t_ton_start i
       else TON_running s \<and> ton_start_marker s1 = ton_start_marker s)) \<and>
   (TOF_running s1 \<longrightarrow>
      (if \<not> sample i \<and> last_state s then tof_start_marker s1 = t_tof_start i
       else TOF_running s \<and> tof_start_marker s1 = tof_start_marker s))"
  using assms
  by (auto simp: input_change_def rising_edge_before_approved_def
      rising_edge_after_approved_def falling_edge_after_approved_def
      falling_edge_before_approved_def Let_def split: if_splits)

lemma TON_keeps:
  "last_state (snd (TON_implementation s i)) = last_state s \<and>
   ton_threshold (snd (TON_implementation s i)) = ton_threshold s \<and>
   tof_threshold (snd (TON_implementation s i)) = tof_threshold s \<and>
   ton_start_marker (snd (TON_implementation s i)) = ton_start_marker s \<and>
   tof_start_marker (snd (TON_implementation s i)) = tof_start_marker s \<and>
   TOF_running (snd (TON_implementation s i)) = TOF_running s \<and>
   (TON_running (snd (TON_implementation s i)) \<longrightarrow> TON_running s)"
  by (auto simp: TON_implementation_def Let_def)

lemma TOF_keeps:
  "last_state (snd (TOF_implementation s i)) = last_state s \<and>
   ton_threshold (snd (TOF_implementation s i)) = ton_threshold s \<and>
   tof_threshold (snd (TOF_implementation s i)) = tof_threshold s \<and>
   ton_start_marker (snd (TOF_implementation s i)) = ton_start_marker s \<and>
   tof_start_marker (snd (TOF_implementation s i)) = tof_start_marker s \<and>
   TON_running (snd (TOF_implementation s i)) = TON_running s \<and>
   (TOF_running (snd (TOF_implementation s i)) \<longrightarrow> TOF_running s)"
  by (auto simp: TOF_implementation_def Let_def)

lemma toggle_keeps:
  "last_state (snd (toggle_inbuilt_led_fast s t)) = last_state s \<and>
   ton_threshold (snd (toggle_inbuilt_led_fast s t)) = ton_threshold s \<and>
   tof_threshold (snd (toggle_inbuilt_led_fast s t)) = tof_threshold s \<and>
   ton_start_marker (snd (toggle_inbuilt_led_fast s t)) = ton_start_marker s \<and>
   tof_start_marker (snd (toggle_inbuilt_led_fast s t)) = tof_start_marker s"
  by (auto simp: toggle_inbuilt_led_fast_def Let_def)

lemma check_wifi_keeps:
  assumes "check_wifi s w codes k = (out, Some s')"
  shows "ton_threshold s' = ton_threshold s \<and> tof_threshold s' = tof_threshold s"
proof -
  from assms have "s' = s\<lparr>response := response s'\<rparr>" by (rule frame_check_wifi)
  then obtain x where "s' = s\<lparr>response := x\<rparr>" ..
  then show ?thesis by simp
qed

text \<open>What a complete cycle does to the markers, seen from its end.\<close>

lemma loop_markers:
  assumes "snd (loop s i) = Some s'"
  shows "last_state s' = sample i \<and>
         ton_threshold s' = ton_threshold s \<and> tof_threshold s' = tof_threshold s \<and>
         (TON_running s' \<longrightarrow>
            (if sample i \<and> \<not> last_state s then ton_start_marker s' = t_ton_start i
             else TON_running s \<and> ton_start_marker s' = ton_start_marker s)) \<and>
         (TOF_running s' \<longrightarrow>
            (if \<not> sample i \<and> last_state s then tof_start_marker s' = t_tof_start i
             else TOF_running s \<and> tof_start_marker s' = tof_start_marker s))"
proof -
  obtain o1 s1 where 1: "input_change s i = (o1, s1)" by (cases "input_change s i")
  obtain o2 s2 where 2: "TON_implementation s1 i = (o2, s2)" by (cases "TON_implementation s1 i")
  obtain o3 s3 where 3: "TOF_implementation s2 i = (o3, s3)" by (cases "TOF_implementation s2 i")
  obtain o4 s4 where 4: "toggle_inbuilt_led_fast s3 (t_led i) = (o4, s4)"
    by (cases "toggle_inbuilt_led_fast s3 (t_led i)")
  obtain o5 r where 5: "check_wifi s4 (wifi i) (resp_wifi i) 0 = (o5, r)"
    by (cases "check_wifi s4 (wifi i) (resp_wifi i) 0")
  from assms loop_unfold [OF 1 2 3 4 5]
  have 6: "check_wifi s4 (wifi i) (resp_wifi i) 0 = (o5, Some s')" using 5 by simp
  note e = edge_step [OF 1] and a = TON_keeps [of s1 i] and b = TOF_keeps [of s2 i]
    and c = toggle_keeps [of s3 "t_led i"] and f = flags_toggle [of s3 "t_led i"]
    and d = flags_check_wifi [OF 6] and g = check_wifi_keeps [OF 6]
  have "last_state s' = last_state s1" "ton_threshold s' = ton_threshold s1"
    "tof_threshold s' = tof_threshold s1" "ton_start_marker s' = ton_start_marker s1"
    "tof_start_marker s' = tof_start_marker s1"
    "TON_running s' \<longrightarrow> TON_running s1" "TOF_running s' \<longrightarrow> TOF_running s1"
    using a b c d f g 2 3 4 by simp_all
  with e show ?thesis by auto
qed

lemma run_markers:
  assumes "snd (run s ins) = Some s'"
    and "TON_running s \<longrightarrow> a1 = Some (ton_start_marker s)"
    and "TOF_running s \<longrightarrow> a2 = Some (tof_start_marker s)"
  shows "last_state s' = last (last_state s # map sample ins) \<and>
         ton_threshold s' = ton_threshold s \<and> tof_threshold s' = tof_threshold s \<and>
         (TON_running s' \<longrightarrow>
            last_rising_edge (last_state s) a1 ins = Some (ton_start_marker s')) \<and>
         (TOF_running s' \<longrightarrow>
            last_falling_edge (last_state s) a2 ins = Some (tof_start_marker s'))"
  using assms
proof (induction ins arbitrary: s a1 a2)
  case Nil
  then show ?case by simp
next
  case (Cons i ins)
  from Cons.prems(1) obtain m where m: "snd (loop s i) = Some m" and r: "snd (run m ins) = Some s'"
    by (auto split: prod.splits option.splits)
  note l = loop_markers [OF m]
  let ?a1 = "if sample i \<and> \<not> last_state s then Some (t_ton_start i) else a1"
  let ?a2 = "if \<not> sample i \<and> last_state s then Some (t_tof_start i) else a2"
  have p1: "TON_running m \<longrightarrow> ?a1 = Some (ton_start_marker m)"
    using l Cons.prems(2) by (auto split: if_splits)
  have p2: "TOF_running m \<longrightarrow> ?a2 = Some (tof_start_marker m)"
    using l Cons.prems(3) by (auto split: if_splits)
  from Cons.IH [OF r p1 p2] l show ?case by simp
qed

lemma boot_markers:
  assumes "snd (boot b ins) = Some s"
  shows "last_state s = last (first_sample b # map sample ins) \<and>
         ton_threshold s = 1800 \<and> tof_threshold s = 1600 \<and>
         (TON_running s \<longrightarrow>
            last_rising_edge (first_sample b) None ins = Some (ton_start_marker s)) \<and>
         (TOF_running s \<longrightarrow>
            last_falling_edge (first_sample b) None ins = Some (tof_start_marker s))"
proof -
  from assms obtain s0 where 0: "snd (setup_fn b) = Some s0" and 1: "snd (run s0 ins) = Some s"
    by (auto simp: boot_def split: prod.splits option.splits)
  from setup_state [OF 0] have i0: "\<not> TON_running s0" "\<not> TOF_running s0"
    "last_state s0 = first_sample b"
    by simp_all
  have t0: "ton_threshold s0 = 1800" "tof_threshold s0 = 1600"
    using 0
    by (auto simp: setup_fn_def Let_def initial_globals_def
        split: prod.splits option.splits dest!: frame_connect)
  from run_markers [OF 1, of None None] i0 t0 show ?thesis by simp
qed

lemma running_after_edge:
  assumes "timers_consistent s" and "input_change s i = (o1, s1)"
  shows "(TON_running s1 \<longleftrightarrow>
            sample i \<and> \<not> approved_alarm_state s \<and> (TON_running s \<or> \<not> last_state s)) \<and>
         (TOF_running s1 \<longleftrightarrow>
            \<not> sample i \<and> approved_alarm_state s \<and> (TOF_running s \<or> last_state s))"
  using assms
  by (auto simp: timers_consistent_def input_change_def rising_edge_before_approved_def
      rising_edge_after_approved_def falling_edge_after_approved_def
      falling_edge_before_approved_def Let_def split: if_splits)

section \<open>One cycle and the two notifications\<close>

lemma ton_expiry_cycle:
  assumes "snd (boot b ins) = Some s"
  shows "(case input_change s i of (o1, s1) \<Rightarrow>
          case TON_implementation s1 i of (o2, s2) \<Rightarrow>
            count_list (fst (loop s i)) EnteredAlarm \<le> 1 \<and>
            (EnteredAlarm \<in> set (fst (loop s i)) \<longleftrightarrow>
               TON_running s1 \<and> ton_threshold s1 \<le> t_ton_check i - ton_start_marker s1) \<and>
            (EnteredAlarm \<in> set (fst (loop s i)) \<longrightarrow>
               spec_AlarmState s1 = Confirming \<and> \<not> approved_alarm_state s1 \<and>
               \<not> TON_running s2 \<and> approved_alarm_state s2 \<and> spec_AlarmState s2 = Armed \<and>
               (\<forall>s'. snd (loop s i) = Some s' \<longrightarrow> spec_AlarmState s' = Armed))) \<and>
         armed_after False (fst (boot b ins)) = Some (approved_alarm_state s)"
proof -
  obtain o1 s1 where 1: "input_change s i = (o1, s1)" by (cases "input_change s i")
  obtain o2 s2 where 2: "TON_implementation s1 i = (o2, s2)" by (cases "TON_implementation s1 i")
  obtain o3 s3 where 3: "TOF_implementation s2 i = (o3, s3)" by (cases "TOF_implementation s2 i")
  obtain o4 s4 where 4: "toggle_inbuilt_led_fast s3 (t_led i) = (o4, s4)"
    by (cases "toggle_inbuilt_led_fast s3 (t_led i)")
  obtain o5 r where 5: "check_wifi s4 (wifi i) (resp_wifi i) 0 = (o5, r)"
    by (cases "check_wifi s4 (wifi i) (resp_wifi i) 0")
  note L = loop_unfold [OF 1 2 3 4 5]
  have c0: "timers_consistent s" using assms by (rule inv_boot)
  then have c1: "timers_consistent s1" using inv_input_change [of s i] 1 by simp
  have n1: "EnteredAlarm \<notin> set o1"
    using webhook_input_change [of _ s i] 1 by (simp add: EnteredAlarm_def)
  have n3: "EnteredAlarm \<notin> set o3"
    using TOF_webhook [of _ s2 i] 3 by (simp add: EnteredAlarm_def)
  have n4: "EnteredAlarm \<notin> set o4"
    using webhook_toggle [of _ s3 "t_led i"] 4 by (simp add: EnteredAlarm_def)
  have n5: "EnteredAlarm \<notin> set o5"
    using quiet_check_wifi [of s4 "wifi i" "resp_wifi i" 0] 5 by simp
  have n6: "EnteredAlarm \<notin> set (case r of None \<Rightarrow> [] | Some s5 \<Rightarrow> [Delay 100])"
    by (simp add: EnteredAlarm_def split: option.splits)
  have cnt: "count_list (fst (loop s i)) EnteredAlarm = count_list o2 EnteredAlarm"
    using n1 n3 n4 n5 n6 by (simp add: L) (simp add: EnteredAlarm_def)
  have mem: "EnteredAlarm \<in> set (fst (loop s i)) \<longleftrightarrow> EnteredAlarm \<in> set o2"
    using n1 n3 n4 n5 n6 by (simp add: L) (simp add: EnteredAlarm_def)
  have fires: "EnteredAlarm \<in> set o2 \<longleftrightarrow>
      TON_running s1 \<and> ton_threshold s1 \<le> t_ton_check i - ton_start_marker s1"
    using TON_webhook [of "''Pump-relay_circuit_OPEN!''" s1 i] 2 by (simp add: EnteredAlarm_def)
  have after: "spec_AlarmState s1 = Confirming \<and> \<not> approved_alarm_state s1 \<and>
      \<not> TON_running s2 \<and> approved_alarm_state s2 \<and> spec_AlarmState s2 = Armed \<and>
      (\<forall>s'. snd (loop s i) = Some s' \<longrightarrow> spec_AlarmState s' = Armed)"
    if f: "TON_running s1" "ton_threshold s1 \<le> t_ton_check i - ton_start_marker s1"
  proof -
    from c1 f have p1: "\<not> approved_alarm_state s1" "\<not> TOF_running s1"
      by (auto simp: timers_consistent_def)
    from TON_fires [OF f] 2
    have s2: "s2 = s1\<lparr>TON_running := False, approved_alarm_state := True,
                       response := resp_open i\<rparr>"
      by simp
    with p1 have idle: "\<not> TOF_running s2" by simp
    then have s3: "s3 = s2" using TOF_idle [of s2 i] 3 by simp
    have t4: "approved_alarm_state s4 = approved_alarm_state s3"
      "TOF_running s4 = TOF_running s3"
      using flags_toggle [of s3 "t_led i"] 4 by simp_all
    have s4: "approved_alarm_state s4" "\<not> TOF_running s4"
      using t4 s3 s2 idle by simp_all
    have "spec_AlarmState s' = Armed" if "snd (loop s i) = Some s'" for s'
    proof -
      from that L have "check_wifi s4 (wifi i) (resp_wifi i) 0 = (o5, Some s')"
        using 5 by simp
      from flags_check_wifi(1,3) [OF this] s4 show ?thesis
        by (simp add: spec_AlarmState_def)
    qed
    with p1 f s2 show ?thesis by (simp add: spec_AlarmState_def)
  qed
  have trace: "armed_after False (fst (boot b ins)) = Some (approved_alarm_state s)"
    using armed_after_boot [of b ins] assms by auto
  show ?thesis
    using cnt mem fires after trace TON_count [of s1 i] 1 2 by simp
qed

lemma tof_expiry_cycle:
  assumes "snd (boot b ins) = Some s"
  shows "(case input_change s i of (o1, s1) \<Rightarrow>
          case TON_implementation s1 i of (o2, s2) \<Rightarrow>
          case TOF_implementation s2 i of (o3, s3) \<Rightarrow>
            count_list (fst (loop s i)) ClearedAlarm \<le> 1 \<and>
            (ClearedAlarm \<in> set (fst (loop s i)) \<longleftrightarrow>
               TOF_running s2 \<and> tof_threshold s2 \<le> t_tof_check i - tof_start_marker s2) \<and>
            (ClearedAlarm \<in> set (fst (loop s i)) \<longrightarrow>
               spec_AlarmState s2 = Clearing \<and> approved_alarm_state s2 \<and>
               \<not> TOF_running s3 \<and> \<not> approved_alarm_state s3 \<and> spec_AlarmState s3 = Cleared \<and>
               (\<forall>s'. snd (loop s i) = Some s' \<longrightarrow> spec_AlarmState s' = Cleared))) \<and>
         armed_after False (fst (boot b ins)) = Some (approved_alarm_state s)"
proof -
  obtain o1 s1 where 1: "input_change s i = (o1, s1)" by (cases "input_change s i")
  obtain o2 s2 where 2: "TON_implementation s1 i = (o2, s2)" by (cases "TON_implementation s1 i")
  obtain o3 s3 where 3: "TOF_implementation s2 i = (o3, s3)" by (cases "TOF_implementation s2 i")
  obtain o4 s4 where 4: "toggle_inbuilt_led_fast s3 (t_led i) = (o4, s4)"
    by (cases "toggle_inbuilt_led_fast s3 (t_led i)")
  obtain o5 r where 5: "check_wifi s4 (wifi i) (resp_wifi i) 0 = (o5, r)"
    by (cases "check_wifi s4 (wifi i) (resp_wifi i) 0")
  note L = loop_unfold [OF 1 2 3 4 5]
  have c0: "timers_consistent s" using assms by (rule inv_boot)
  then have c1: "timers_consistent s1" using inv_input_change [of s i] 1 by simp
  then have c2: "timers_consistent s2" using inv_TON [of s1 i] 2 by simp
  have n1: "ClearedAlarm \<notin> set o1"
    using webhook_input_change [of _ s i] 1 by (simp add: ClearedAlarm_def)
  have n2: "ClearedAlarm \<notin> set o2"
    using TON_webhook [of _ s1 i] 2 by (simp add: ClearedAlarm_def)
  have n4: "ClearedAlarm \<notin> set o4"
    using webhook_toggle [of _ s3 "t_led i"] 4 by (simp add: ClearedAlarm_def)
  have n5: "ClearedAlarm \<notin> set o5"
    using quiet_check_wifi [of s4 "wifi i" "resp_wifi i" 0] 5 by simp
  have n6: "ClearedAlarm \<notin> set (case r of None \<Rightarrow> [] | Some s5 \<Rightarrow> [Delay 100])"
    by (simp add: ClearedAlarm_def split: option.splits)
  have cnt: "count_list (fst (loop s i)) ClearedAlarm = count_list o3 ClearedAlarm"
    using n1 n2 n4 n5 n6 by (simp add: L) (simp add: ClearedAlarm_def)
  have mem: "ClearedAlarm \<in> set (fst (loop s i)) \<longleftrightarrow> ClearedAlarm \<in> set o3"
    using n1 n2 n4 n5 n6 by (simp add: L) (simp add: ClearedAlarm_def)
  have fires: "ClearedAlarm \<in> set o3 \<longleftrightarrow>
      TOF_running s2 \<and> tof_threshold s2 \<le> t_tof_check i - tof_start_marker s2"
    using TOF_webhook [of "''Pump-relay_circuit_CLOSED_OK!''" s2 i] 3
    by (simp add: ClearedAlarm_def)
  have after: "spec_AlarmState s2 = Clearing \<and> approved_alarm_state s2 \<and>
      \<not> TOF_running s3 \<and> \<not> approved_alarm_state s3 \<and> spec_AlarmState s3 = Cleared \<and>
      (\<forall>s'. snd (loop s i) = Some s' \<longrightarrow> spec_AlarmState s' = Cleared)"
    if f: "TOF_running s2" "tof_threshold s2 \<le> t_tof_check i - tof_start_marker s2"
  proof -
    from c2 f have p2: "approved_alarm_state s2" "\<not> TON_running s2"
      by (auto simp: timers_consistent_def)
    from TOF_fires [OF f] 3
    have s3: "s3 = s2\<lparr>TOF_running := False, approved_alarm_state := False,
                       response := resp_closed i\<rparr>"
      by simp
    have t4: "approved_alarm_state s4 = approved_alarm_state s3"
      "TON_running s4 = TON_running s3"
      using flags_toggle [of s3 "t_led i"] 4 by simp_all
    have s4: "\<not> approved_alarm_state s4" "\<not> TON_running s4"
      using t4 s3 p2 by simp_all
    have "spec_AlarmState s' = Cleared" if "snd (loop s i) = Some s'" for s'
    proof -
      from that L have "check_wifi s4 (wifi i) (resp_wifi i) 0 = (o5, Some s')"
        using 5 by simp
      from flags_check_wifi(1,2) [OF this] s4 show ?thesis
        by (simp add: spec_AlarmState_def)
    qed
    with p2 f s3 show ?thesis by (simp add: spec_AlarmState_def)
  qed
  have trace: "armed_after False (fst (boot b ins)) = Some (approved_alarm_state s)"
    using armed_after_boot [of b ins] assms by auto
  show ?thesis
    using cnt mem fires after trace TOF_count [of s2 i] 1 2 3 by simp
qed

section \<open>The writes to the LED\<close>








section \<open>The claims\<close>

text \<open>
  C1. In every state reached from power-on, whatever the samples and clock readings were,
  and for every input of the next cycle: the cycle sends "Pump-relay_circuit_OPEN!" at most
  once; it sends it exactly when, at the turn-on expiry check (after the edge handling),
  the turn-on timer is running and the wrap-around difference between the clock reading
  and the start marker is at least the turn-on threshold; the machine is then Confirming
  (alarm not approved), the expiry stops the turn-on timer and approves the alarm (Armed),
  and the cycle ends Armed. The threshold is 1800 ms. The timer is running at the check
  exactly when the sample is true, the alarm was not approved, and the timer was running
  or the last sample was false; and its start marker is then the clock reading of line 111
  in the latest cycle, this one included, whose sample was true after a false one. So the
  notification is sent exactly when the timer is running and the reading at the check is
  at least 1800 ms past the reading at that rising edge. Over the whole run the two alarm
  notifications alternate, beginning with the entered one, so the next one can only follow
  a cleared one.
\<close>

theorem entered_alarm_only_at_ton_expiry:
  assumes "snd (boot b ins) = Some s"
  shows "(case input_change s i of (o1, s1) \<Rightarrow>
          case TON_implementation s1 i of (o2, s2) \<Rightarrow>
            count_list (fst (loop s i)) EnteredAlarm \<le> 1 \<and>
            (EnteredAlarm \<in> set (fst (loop s i)) \<longleftrightarrow>
               TON_running s1 \<and> ton_threshold s1 \<le> t_ton_check i - ton_start_marker s1) \<and>
            (EnteredAlarm \<in> set (fst (loop s i)) \<longrightarrow>
               spec_AlarmState s1 = Confirming \<and> \<not> approved_alarm_state s1 \<and>
               \<not> TON_running s2 \<and> approved_alarm_state s2 \<and> spec_AlarmState s2 = Armed \<and>
               (\<forall>s'. snd (loop s i) = Some s' \<longrightarrow> spec_AlarmState s' = Armed)) \<and>
            ton_threshold s1 = 1800 \<and>
            (TON_running s1 \<longleftrightarrow>
               sample i \<and> \<not> approved_alarm_state s \<and> (TON_running s \<or> \<not> last_state s)) \<and>
            (TON_running s1 \<longrightarrow>
               last_rising_edge (first_sample b) None (ins @ [i]) = Some (ton_start_marker s1)) \<and>
            (EnteredAlarm \<in> set (fst (loop s i)) \<longleftrightarrow>
               TON_running s1 \<and>
               (\<exists>t0. last_rising_edge (first_sample b) None (ins @ [i]) = Some t0 \<and>
                     1800 \<le> t_ton_check i - t0))) \<and>
         armed_after False (fst (boot b ins)) = Some (approved_alarm_state s)"
proof -
  obtain o1 s1 where 1: "input_change s i = (o1, s1)" by (cases "input_change s i")
  obtain o2 s2 where 2: "TON_implementation s1 i = (o2, s2)" by (cases "TON_implementation s1 i")
  have c0: "timers_consistent s" using assms by (rule inv_boot)
  note old = ton_expiry_cycle [OF assms, of i]
  note m = boot_markers [OF assms] and e = edge_step [OF 1]
  have thr: "ton_threshold s1 = 1800" using m e by simp
  have run: "TON_running s1 \<longleftrightarrow>
      sample i \<and> \<not> approved_alarm_state s \<and> (TON_running s \<or> \<not> last_state s)"
    using running_after_edge [OF c0 1] by simp
  have mk: "last_rising_edge (first_sample b) None (ins @ [i]) = Some (ton_start_marker s1)"
    if "TON_running s1"
    using that m e by (auto simp: last_rising_edge_snoc split: if_splits)
  have fires: "EnteredAlarm \<in> set (fst (loop s i)) \<longleftrightarrow>
      TON_running s1 \<and> ton_threshold s1 \<le> t_ton_check i - ton_start_marker s1"
    using old 1 2 by simp
  have direct: "EnteredAlarm \<in> set (fst (loop s i)) \<longleftrightarrow>
      TON_running s1 \<and>
      (\<exists>t0. last_rising_edge (first_sample b) None (ins @ [i]) = Some t0 \<and>
            1800 \<le> t_ton_check i - t0)"
    using fires thr mk by auto
  from old 1 2 thr run mk direct show ?thesis by simp
qed

theorem entered_alarm_only_at_ton_expiry_witness:
  "snd (boot wit_boot [steady_cycle True 0]) = Some wit_confirming \<and>
   TON_running (snd (input_change wit_confirming (steady_cycle True 1800))) \<and>
   EnteredAlarm \<in> set (fst (loop wit_confirming (steady_cycle True 1800))) \<and>
   count_list (fst (loop wit_confirming (steady_cycle True 1800))) EnteredAlarm \<le> 1 \<and>
   snd (loop wit_confirming (steady_cycle True 1800)) = Some wit_armed \<and>
   spec_AlarmState wit_confirming = Confirming \<and> spec_AlarmState wit_armed = Armed \<and>
   armed_after False (fst (boot wit_boot [steady_cycle True 0])) = Some False \<and>
   snd (boot wit_boot []) = Some wit_cleared \<and>
   EnteredAlarm \<notin> set (fst (loop wit_cleared (steady_cycle True 10000))) \<and>
   snd (boot wit_boot [steady_cycle True 10000]) = Some wit_confirming_late \<and>
   last_rising_edge (first_sample wit_boot) None
     ([steady_cycle True 10000] @ [steady_cycle True 11800]) = Some 10000 \<and>
   ton_start_marker (snd (input_change wit_confirming_late (steady_cycle True 11800))) = 10000 \<and>
   EnteredAlarm \<notin> set (fst (loop wit_confirming_late (steady_cycle True 11799))) \<and>
   EnteredAlarm \<in> set (fst (loop wit_confirming_late (steady_cycle True 11800)))"
proof -
  have direct: ?thesis
    using boot_wit_confirming boot_wit_cleared boot_wit_confirming_late
    by (simp add: eval_defs wit_confirming_def wit_armed_def wit_cleared_def
        wit_confirming_late_def spec_AlarmState_def EnteredAlarm_def ClearedAlarm_def)
  show ?thesis
    using entered_alarm_only_at_ton_expiry [OF boot_wit_confirming, of "steady_cycle True 1800"]
      entered_alarm_only_at_ton_expiry [OF boot_wit_cleared, of "steady_cycle True 10000"]
      entered_alarm_only_at_ton_expiry [OF boot_wit_confirming_late,
        of "steady_cycle True 11799"]
      entered_alarm_only_at_ton_expiry [OF boot_wit_confirming_late,
        of "steady_cycle True 11800"]
    by - (rule direct)
qed

text \<open>
  C2. In every state reached from power-on and for every input of the next cycle: the
  cycle sends "Pump-relay_circuit_CLOSED_OK!" at most once; it sends it exactly when, at
  the turn-off expiry check (after the edge handling and the turn-on check), the turn-off
  timer is running and the wrap-around difference between the clock reading and the start
  marker is at least the turn-off threshold; the machine is then Clearing (alarm
  approved), the expiry stops the turn-off timer and withdraws the approval (Cleared), and
  the cycle ends Cleared. The threshold is 1600 ms. The timer is running at the check
  exactly when the sample is false, the alarm was approved, and the timer was running or
  the last sample was true; and its start marker is then the clock reading of line 127 in
  the latest cycle, this one included, whose sample was false after a true one. So the
  notification is sent exactly when the timer is running and the reading at the check is
  at least 1600 ms past the reading at that falling edge. Over the whole run the two alarm
  notifications alternate.
\<close>

theorem cleared_alarm_only_at_tof_expiry:
  assumes "snd (boot b ins) = Some s"
  shows "(case input_change s i of (o1, s1) \<Rightarrow>
          case TON_implementation s1 i of (o2, s2) \<Rightarrow>
          case TOF_implementation s2 i of (o3, s3) \<Rightarrow>
            count_list (fst (loop s i)) ClearedAlarm \<le> 1 \<and>
            (ClearedAlarm \<in> set (fst (loop s i)) \<longleftrightarrow>
               TOF_running s2 \<and> tof_threshold s2 \<le> t_tof_check i - tof_start_marker s2) \<and>
            (ClearedAlarm \<in> set (fst (loop s i)) \<longrightarrow>
               spec_AlarmState s2 = Clearing \<and> approved_alarm_state s2 \<and>
               \<not> TOF_running s3 \<and> \<not> approved_alarm_state s3 \<and> spec_AlarmState s3 = Cleared \<and>
               (\<forall>s'. snd (loop s i) = Some s' \<longrightarrow> spec_AlarmState s' = Cleared)) \<and>
            tof_threshold s2 = 1600 \<and>
            (TOF_running s2 \<longleftrightarrow>
               \<not> sample i \<and> approved_alarm_state s \<and> (TOF_running s \<or> last_state s)) \<and>
            (TOF_running s2 \<longrightarrow>
               last_falling_edge (first_sample b) None (ins @ [i]) = Some (tof_start_marker s2)) \<and>
            (ClearedAlarm \<in> set (fst (loop s i)) \<longleftrightarrow>
               TOF_running s2 \<and>
               (\<exists>t0. last_falling_edge (first_sample b) None (ins @ [i]) = Some t0 \<and>
                     1600 \<le> t_tof_check i - t0))) \<and>
         armed_after False (fst (boot b ins)) = Some (approved_alarm_state s)"
proof -
  obtain o1 s1 where 1: "input_change s i = (o1, s1)" by (cases "input_change s i")
  obtain o2 s2 where 2: "TON_implementation s1 i = (o2, s2)" by (cases "TON_implementation s1 i")
  obtain o3 s3 where 3: "TOF_implementation s2 i = (o3, s3)" by (cases "TOF_implementation s2 i")
  have c0: "timers_consistent s" using assms by (rule inv_boot)
  note old = tof_expiry_cycle [OF assms, of i]
  note m = boot_markers [OF assms] and e = edge_step [OF 1]
  have k: "tof_threshold s2 = tof_threshold s1" "tof_start_marker s2 = tof_start_marker s1"
    "TOF_running s2 = TOF_running s1"
    using TON_keeps [of s1 i] 2 by simp_all
  have thr: "tof_threshold s2 = 1600" using m e k by simp
  have run: "TOF_running s2 \<longleftrightarrow>
      \<not> sample i \<and> approved_alarm_state s \<and> (TOF_running s \<or> last_state s)"
    using running_after_edge [OF c0 1] k by simp
  have mk: "last_falling_edge (first_sample b) None (ins @ [i]) = Some (tof_start_marker s2)"
    if "TOF_running s2"
    using that m e k by (auto simp: last_falling_edge_snoc split: if_splits)
  have fires: "ClearedAlarm \<in> set (fst (loop s i)) \<longleftrightarrow>
      TOF_running s2 \<and> tof_threshold s2 \<le> t_tof_check i - tof_start_marker s2"
    using old 1 2 3 by simp
  have direct: "ClearedAlarm \<in> set (fst (loop s i)) \<longleftrightarrow>
      TOF_running s2 \<and>
      (\<exists>t0. last_falling_edge (first_sample b) None (ins @ [i]) = Some t0 \<and>
            1600 \<le> t_tof_check i - t0)"
    using fires thr mk by auto
  from old 1 2 3 thr run mk direct show ?thesis by simp
qed

theorem cleared_alarm_only_at_tof_expiry_witness:
  "snd (boot wit_boot [steady_cycle True 0, steady_cycle True 1800, steady_cycle False 2000])
     = Some wit_clearing \<and>
   spec_AlarmState wit_armed = Armed \<and> spec_AlarmState wit_clearing = Clearing \<and>
   TOF_running (snd (TON_implementation
     (snd (input_change wit_clearing (steady_cycle False 3600))) (steady_cycle False 3600))) \<and>
   ClearedAlarm \<in> set (fst (loop wit_clearing (steady_cycle False 3600))) \<and>
   count_list (fst (loop wit_clearing (steady_cycle False 3600))) ClearedAlarm \<le> 1 \<and>
   map_option spec_AlarmState (snd (loop wit_clearing (steady_cycle False 3600))) = Some Cleared \<and>
   armed_after False
     (fst (boot wit_boot [steady_cycle True 0, steady_cycle True 1800, steady_cycle False 2000]))
     = Some True \<and>
   snd (boot wit_boot [steady_cycle True 0, steady_cycle True 1800]) = Some wit_armed \<and>
   ClearedAlarm \<notin> set (fst (loop wit_armed (steady_cycle False 10000))) \<and>
   snd (boot wit_boot [steady_cycle True 0, steady_cycle True 1800, steady_cycle False 10000])
     = Some wit_clearing_late \<and>
   last_falling_edge (first_sample wit_boot) None
     ([steady_cycle True 0, steady_cycle True 1800, steady_cycle False 10000] @
      [steady_cycle False 11600]) = Some 10000 \<and>
   tof_start_marker (snd (input_change wit_clearing_late (steady_cycle False 11600))) = 10000 \<and>
   ClearedAlarm \<notin> set (fst (loop wit_clearing_late (steady_cycle False 11599))) \<and>
   ClearedAlarm \<in> set (fst (loop wit_clearing_late (steady_cycle False 11600)))"
proof -
  have direct: ?thesis
    using boot_wit_clearing boot_wit_armed boot_wit_clearing_late
    by (simp add: eval_defs wit_clearing_def wit_armed_def wit_clearing_late_def
        spec_AlarmState_def ClearedAlarm_def EnteredAlarm_def)
  show ?thesis
    using cleared_alarm_only_at_tof_expiry [OF boot_wit_clearing, of "steady_cycle False 3600"]
      cleared_alarm_only_at_tof_expiry [OF boot_wit_armed, of "steady_cycle False 10000"]
      cleared_alarm_only_at_tof_expiry [OF boot_wit_clearing_late,
        of "steady_cycle False 11599"]
      cleared_alarm_only_at_tof_expiry [OF boot_wit_clearing_late,
        of "steady_cycle False 11600"]
    by - (rule direct)
qed

text \<open>
  C3. Timer mutual exclusion: in every state the program reaches from power-on, whatever
  the samples and clock readings were, the turn-on and the turn-off timer are not both
  running; and in the cycle that follows, whatever its input, they are not both running
  after the edge handling, after the turn-on expiry check and after the turn-off expiry
  check.
\<close>

theorem timers_never_both_running:
  assumes "snd (boot b ins) = Some s"
  shows "\<not> (TON_running s \<and> TOF_running s) \<and>
         (case input_change s i of (o1, s1) \<Rightarrow>
          case TON_implementation s1 i of (o2, s2) \<Rightarrow>
          case TOF_implementation s2 i of (o3, s3) \<Rightarrow>
            \<not> (TON_running s1 \<and> TOF_running s1) \<and>
            \<not> (TON_running s2 \<and> TOF_running s2) \<and>
            \<not> (TON_running s3 \<and> TOF_running s3))"
proof -
  obtain o1 s1 where 1: "input_change s i = (o1, s1)" by (cases "input_change s i")
  obtain o2 s2 where 2: "TON_implementation s1 i = (o2, s2)" by (cases "TON_implementation s1 i")
  obtain o3 s3 where 3: "TOF_implementation s2 i = (o3, s3)" by (cases "TOF_implementation s2 i")
  have 0: "timers_consistent s" using assms by (rule inv_boot)
  then have "timers_consistent s1" using inv_input_change [of s i] 1 by simp
  moreover from this have "timers_consistent s2" using inv_TON [of s1 i] 2 by simp
  moreover from this have "timers_consistent s3" using inv_TOF [of s2 i] 3 by simp
  ultimately show ?thesis using 0 1 2 3 by (simp add: timers_consistent_def)
qed

theorem timers_never_both_running_witness:
  "snd (boot wit_boot [steady_cycle True 0, steady_cycle True 1800, steady_cycle False 2000])
     = Some wit_clearing \<and>
   \<not> (TON_running wit_clearing \<and> TOF_running wit_clearing) \<and>
   (case input_change wit_clearing (steady_cycle True 2500) of (o1, s1) \<Rightarrow>
    case TON_implementation s1 (steady_cycle True 2500) of (o2, s2) \<Rightarrow>
    case TOF_implementation s2 (steady_cycle True 2500) of (o3, s3) \<Rightarrow>
      \<not> (TON_running s1 \<and> TOF_running s1) \<and>
      \<not> (TON_running s2 \<and> TOF_running s2) \<and>
      \<not> (TON_running s3 \<and> TOF_running s3))"
  using timers_never_both_running [OF boot_wit_clearing, of "steady_cycle True 2500"]
    boot_wit_clearing
  by simp

text \<open>
  C4. Cancellation: in a state reached from power-on in which a timer is pending
  (Confirming or Clearing), a cycle whose sample differs from the last one (the input flips
  back) stops the pending timer, leaves the approval as it was, so that the machine is back
  in Cleared, respectively Armed, and sends no notification: none in the edge handling and
  the two expiry checks, and neither alarm notification in the whole cycle, whatever the
  clock readings are.
\<close>

theorem flip_back_cancels_pending_timer:
  assumes "snd (boot b ins) = Some s"
    and "spec_AlarmState s = Confirming \<or> spec_AlarmState s = Clearing"
    and "sample i \<noteq> last_state s"
  shows "(case input_change s i of (o1, s1) \<Rightarrow>
          case TON_implementation s1 i of (o2, s2) \<Rightarrow>
          case TOF_implementation s2 i of (o3, s3) \<Rightarrow>
            (\<forall>l. Webhook l \<notin> set (o1 @ o2 @ o3)) \<and>
            \<not> TON_running s3 \<and> \<not> TOF_running s3 \<and>
            approved_alarm_state s3 = approved_alarm_state s \<and>
            spec_AlarmState s3 = (if spec_AlarmState s = Confirming then Cleared else Armed)) \<and>
         EnteredAlarm \<notin> set (fst (loop s i)) \<and> ClearedAlarm \<notin> set (fst (loop s i)) \<and>
         (\<forall>s'. snd (loop s i) = Some s' \<longrightarrow>
            \<not> TON_running s' \<and> \<not> TOF_running s' \<and>
            approved_alarm_state s' = approved_alarm_state s \<and>
            spec_AlarmState s' = (if spec_AlarmState s = Confirming then Cleared else Armed))"
proof -
  obtain o1 s1 where 1: "input_change s i = (o1, s1)" by (cases "input_change s i")
  obtain o2 s2 where 2: "TON_implementation s1 i = (o2, s2)" by (cases "TON_implementation s1 i")
  obtain o3 s3 where 3: "TOF_implementation s2 i = (o3, s3)" by (cases "TOF_implementation s2 i")
  have c0: "timers_consistent s" using assms(1) by (rule inv_boot)
  have edge: "\<not> TON_running s1 \<and> \<not> TOF_running s1 \<and>
      approved_alarm_state s1 = approved_alarm_state s \<and>
      spec_AlarmState s1 = (if spec_AlarmState s = Confirming then Cleared else Armed)"
  proof (cases "spec_AlarmState s = Confirming")
    case True
    then have a: "\<not> approved_alarm_state s" and "TON_running s"
      by (auto simp: spec_AlarmState_def split: if_splits)
    with c0 assms(3) have "last_state s" "\<not> sample i"
      by (auto simp: timers_consistent_def)
    from input_change_falling_before [OF this a] 1 True a show ?thesis
      by (auto simp: spec_AlarmState_def)
  next
    case False
    with assms(2) have cl: "spec_AlarmState s = Clearing" by simp
    then have a: "approved_alarm_state s" and "TOF_running s"
      by (auto simp: spec_AlarmState_def split: if_splits)
    with c0 assms(3) have "\<not> last_state s" "sample i"
      by (auto simp: timers_consistent_def)
    from input_change_rising_after [OF this a] 1 cl a show ?thesis
      by (auto simp: spec_AlarmState_def)
  qed
  then have t1: "\<not> TON_running s1" "\<not> TOF_running s1" by simp_all
  have n1: "\<forall>l. Webhook l \<notin> set o1" using webhook_input_change [of _ s i] 1 by simp
  from timers_idle [OF t1 2 3] have idle: "o2 = []" "o3 = []" "s3 = s1" by simp_all
  note rest = loop_idle_timers [OF 1 t1 n1]
  have final: "\<not> TON_running s' \<and> \<not> TOF_running s' \<and>
      approved_alarm_state s' = approved_alarm_state s \<and>
      spec_AlarmState s' = (if spec_AlarmState s = Confirming then Cleared else Armed)"
    if "snd (loop s i) = Some s'" for s'
  proof -
    from rest that have "approved_alarm_state s' = approved_alarm_state s1"
      "TON_running s' = TON_running s1" "TOF_running s' = TOF_running s1"
      by simp_all
    then have "spec_AlarmState s' = spec_AlarmState s1" by (simp add: spec_AlarmState_def)
    with edge \<open>approved_alarm_state s' = approved_alarm_state s1\<close>
      \<open>TON_running s' = TON_running s1\<close> \<open>TOF_running s' = TOF_running s1\<close>
    show ?thesis by simp
  qed
  show ?thesis using 1 2 3 edge n1 idle rest final by simp
qed


theorem flip_back_cancels_pending_timer_witness:
  "snd (boot wit_boot [steady_cycle True 0]) = Some wit_confirming \<and>
   spec_AlarmState wit_confirming = Confirming \<and>
   sample (steady_cycle False 500) \<noteq> last_state wit_confirming \<and>
   EnteredAlarm \<notin> set (fst (loop wit_confirming (steady_cycle False 500))) \<and>
   ClearedAlarm \<notin> set (fst (loop wit_confirming (steady_cycle False 500))) \<and>
   map_option spec_AlarmState (snd (loop wit_confirming (steady_cycle False 500))) = Some Cleared \<and>
   snd (boot wit_boot [steady_cycle True 0, steady_cycle True 1800, steady_cycle False 2000])
     = Some wit_clearing \<and>
   spec_AlarmState wit_clearing = Clearing \<and>
   sample (steady_cycle True 3000) \<noteq> last_state wit_clearing \<and>
   EnteredAlarm \<notin> set (fst (loop wit_clearing (steady_cycle True 3000))) \<and>
   ClearedAlarm \<notin> set (fst (loop wit_clearing (steady_cycle True 3000))) \<and>
   map_option spec_AlarmState (snd (loop wit_clearing (steady_cycle True 3000))) = Some Armed"
proof -
  have a: "spec_AlarmState wit_confirming = Confirming \<or> spec_AlarmState wit_confirming = Clearing"
    by (simp add: spec_AlarmState_def wit_confirming_def)
  have b: "sample (steady_cycle False 500) \<noteq> last_state wit_confirming"
    by (simp add: steady_cycle_def wit_confirming_def)
  have c: "spec_AlarmState wit_clearing = Confirming \<or> spec_AlarmState wit_clearing = Clearing"
    by (simp add: spec_AlarmState_def wit_clearing_def)
  have d: "sample (steady_cycle True 3000) \<noteq> last_state wit_clearing"
    by (simp add: steady_cycle_def wit_clearing_def)
  have e: "snd (loop wit_confirming (steady_cycle False 500)) \<noteq> None"
    "snd (loop wit_clearing (steady_cycle True 3000)) \<noteq> None"
    by (simp_all add: eval_defs wit_confirming_def wit_clearing_def)
  show ?thesis
    using flip_back_cancels_pending_timer [OF boot_wit_confirming a b]
      flip_back_cancels_pending_timer [OF boot_wit_clearing c d]
      boot_wit_confirming boot_wit_clearing b d e
    by (auto simp: spec_AlarmState_def wit_confirming_def wit_clearing_def)
qed




text \<open>
  C6. Idempotence: a cycle whose sample equals the last one, in a state where no timer is
  running (Armed with the input high, Cleared with the input low), prints nothing in the
  edge handling and the expiry checks, sends no alarm notification, and leaves the
  approval, both running flags, both start markers and the last sampled value as they were.
\<close>

theorem stable_state_unchanged:
  assumes "sample i = last_state s" and "\<not> TON_running s" and "\<not> TOF_running s"
  shows "(case input_change s i of (o1, s1) \<Rightarrow>
          case TON_implementation s1 i of (o2, s2) \<Rightarrow>
          case TOF_implementation s2 i of (o3, s3) \<Rightarrow>
            o1 = [] \<and> o2 = [] \<and> o3 = [] \<and> s3 = s\<lparr>new_state := last_state s\<rparr>) \<and>
         EnteredAlarm \<notin> set (fst (loop s i)) \<and> ClearedAlarm \<notin> set (fst (loop s i)) \<and>
         (\<forall>s'. snd (loop s i) = Some s' \<longrightarrow>
            approved_alarm_state s' = approved_alarm_state s \<and>
            TON_running s' = TON_running s \<and> TOF_running s' = TOF_running s \<and>
            ton_start_marker s' = ton_start_marker s \<and>
            tof_start_marker s' = tof_start_marker s \<and> last_state s' = last_state s \<and>
            spec_AlarmState s' = spec_AlarmState s)"
proof -
  let ?s1 = "s\<lparr>new_state := sample i\<rparr>"
  have 1: "input_change s i = ([], ?s1)" using assms(1) by (rule input_change_no_edge)
  obtain o2 s2 where 2: "TON_implementation ?s1 i = (o2, s2)"
    by (cases "TON_implementation ?s1 i")
  obtain o3 s3 where 3: "TOF_implementation s2 i = (o3, s3)" by (cases "TOF_implementation s2 i")
  have t1: "\<not> TON_running ?s1" "\<not> TOF_running ?s1" using assms(2,3) by simp_all
  from timers_idle [OF t1 2 3] have idle: "o2 = []" "o3 = []" "s3 = ?s1" by simp_all
  have "\<forall>l. Webhook l \<notin> set []" by simp
  note rest = loop_idle_timers [OF 1 t1 this]
  have final: "approved_alarm_state s' = approved_alarm_state s \<and>
      TON_running s' = TON_running s \<and> TOF_running s' = TOF_running s \<and>
      ton_start_marker s' = ton_start_marker s \<and>
      tof_start_marker s' = tof_start_marker s \<and> last_state s' = last_state s \<and>
      spec_AlarmState s' = spec_AlarmState s"
    if "snd (loop s i) = Some s'" for s'
  proof -
    from rest that have f: "approved_alarm_state s' = approved_alarm_state s"
      "TON_running s' = TON_running s" "TOF_running s' = TOF_running s"
      "ton_start_marker s' = ton_start_marker s"
      "tof_start_marker s' = tof_start_marker s" "last_state s' = last_state s"
      by simp_all
    then have "spec_AlarmState s' = spec_AlarmState s" by (simp add: spec_AlarmState_def)
    with f show ?thesis by simp
  qed
  have sections: "case input_change s i of (o1, s1) \<Rightarrow>
      case TON_implementation s1 i of (o2, s2) \<Rightarrow>
      case TOF_implementation s2 i of (o3, s3) \<Rightarrow>
        o1 = [] \<and> o2 = [] \<and> o3 = [] \<and> s3 = s\<lparr>new_state := last_state s\<rparr>"
    using 1 2 3 idle assms(1) by simp
  from sections rest final show ?thesis by blast
qed


theorem stable_state_unchanged_witness:
  "sample (steady_cycle True 1900) = last_state wit_armed \<and>
   \<not> TON_running wit_armed \<and> \<not> TOF_running wit_armed \<and> spec_AlarmState wit_armed = Armed \<and>
   EnteredAlarm \<notin> set (fst (loop wit_armed (steady_cycle True 1900))) \<and>
   ClearedAlarm \<notin> set (fst (loop wit_armed (steady_cycle True 1900))) \<and>
   map_option spec_AlarmState (snd (loop wit_armed (steady_cycle True 1900))) = Some Armed \<and>
   map_option last_state (snd (loop wit_armed (steady_cycle True 1900))) = Some True \<and>
   sample (steady_cycle False 50) = last_state wit_cleared \<and>
   \<not> TON_running wit_cleared \<and> \<not> TOF_running wit_cleared \<and>
   spec_AlarmState wit_cleared = Cleared \<and>
   EnteredAlarm \<notin> set (fst (loop wit_cleared (steady_cycle False 50))) \<and>
   ClearedAlarm \<notin> set (fst (loop wit_cleared (steady_cycle False 50))) \<and>
   map_option spec_AlarmState (snd (loop wit_cleared (steady_cycle False 50))) = Some Cleared \<and>
   map_option last_state (snd (loop wit_cleared (steady_cycle False 50))) = Some False"
proof -
  have a: "sample (steady_cycle True 1900) = last_state wit_armed"
    "\<not> TON_running wit_armed" "\<not> TOF_running wit_armed"
    by (simp_all add: steady_cycle_def wit_armed_def)
  have b: "sample (steady_cycle False 50) = last_state wit_cleared"
    "\<not> TON_running wit_cleared" "\<not> TOF_running wit_cleared"
    by (simp_all add: steady_cycle_def wit_cleared_def)
  have e: "snd (loop wit_armed (steady_cycle True 1900)) \<noteq> None"
    "snd (loop wit_cleared (steady_cycle False 50)) \<noteq> None"
    by (simp_all add: eval_defs wit_armed_def wit_cleared_def)
  show ?thesis
    using stable_state_unchanged [OF a] stable_state_unchanged [OF b] a b e
    by (auto simp: spec_AlarmState_def wit_armed_def wit_cleared_def)
qed



text \<open>
  C8. Frame condition of the reconnection: when \<open>connect_to_wifi()\<close> returns it has
  changed no global but \<open>response\<close>, and when the loop of lines 172-176 ends, after any
  number of reconnections, the state differs from the one before at most in \<open>response\<close>:
  the approval, both running flags, both start markers and the last sampled value are the
  same, so a timer that was running still runs from the same start marker.
\<close>

theorem reconnection_keeps_state_machine:
  "(\<forall>out s' rest. connect_to_wifi s w1 code = (out, Some (s', rest)) \<longrightarrow>
      s' = s\<lparr>response := code\<rparr>) \<and>
   (\<forall>out s'. check_wifi s w2 codes k = (out, Some s') \<longrightarrow>
      s' = s\<lparr>response := response s'\<rparr> \<and>
      approved_alarm_state s' = approved_alarm_state s \<and>
      TON_running s' = TON_running s \<and> TOF_running s' = TOF_running s \<and>
      ton_start_marker s' = ton_start_marker s \<and> tof_start_marker s' = tof_start_marker s \<and>
      last_state s' = last_state s)"
  using frame_connect [of s w1 code] frame_check_wifi [of s w2 codes k]
    flags_check_wifi [of s w2 codes k]
  by blast

theorem reconnection_keeps_state_machine_witness:
  "snd (connect_to_wifi wit_confirming [False, True] 503)
     = Some (wit_confirming\<lparr>response := 503\<rparr>, []) \<and>
   snd (check_wifi wit_confirming wit_outage (\<lambda>k. 500 + int k) 0)
     = Some (wit_confirming\<lparr>response := 501\<rparr>) \<and>
   TON_running (wit_confirming\<lparr>response := 501\<rparr>) = TON_running wit_confirming \<and>
   ton_start_marker (wit_confirming\<lparr>response := 501\<rparr>) = ton_start_marker wit_confirming"
proof -
  have a: "snd (connect_to_wifi wit_confirming [False, True] 503)
             = Some (wit_confirming\<lparr>response := 503\<rparr>, [])"
    by (simp add: connect_to_wifi_def Let_def)
  have b: "snd (check_wifi wit_confirming wit_outage (\<lambda>k. 500 + int k) 0)
             = Some (wit_confirming\<lparr>response := 501\<rparr>)"
    by (simp add: wit_outage_def connect_to_wifi_def Let_def)
  show ?thesis
    using reconnection_keeps_state_machine
        [of wit_confirming "[False, True]" 503 wit_outage "\<lambda>k. 500 + int k" 0] a b
    by simp
qed

text \<open>
  C9. Let a timer be started \<open>T0\<close> and checked \<open>T1\<close> milliseconds after power-on, less
  than \<open>2 ^ 32\<close> ms apart. Then the difference of the two clock readings, taken as the
  code takes it, is the true elapsed time \<open>T1 - T0\<close>, also when the clock has overflowed
  in between; so the turn-on check sends its notification and approves the alarm exactly
  when the true elapsed time has reached the turn-on threshold, and the turn-off check
  sends its notification and withdraws the approval exactly when it has reached the
  turn-off threshold.
\<close>

theorem elapsed_time_survives_clock_overflow:
  assumes "T0 \<le> T1" and "T1 - T0 < 2 ^ 32"
  shows "unat (millis_at T1 - millis_at T0) = T1 - T0 \<and>
    (TON_running s \<and> ton_start_marker s = millis_at T0 \<and> t_ton_check i = millis_at T1 \<longrightarrow>
       (EnteredAlarm \<in> set (fst (TON_implementation s i)) \<longleftrightarrow>
          unat (ton_threshold s) \<le> T1 - T0) \<and>
       (approved_alarm_state (snd (TON_implementation s i)) \<longleftrightarrow>
          approved_alarm_state s \<or> unat (ton_threshold s) \<le> T1 - T0)) \<and>
    (TOF_running s \<and> tof_start_marker s = millis_at T0 \<and> t_tof_check i = millis_at T1 \<longrightarrow>
       (ClearedAlarm \<in> set (fst (TOF_implementation s i)) \<longleftrightarrow>
          unat (tof_threshold s) \<le> T1 - T0) \<and>
       (approved_alarm_state (snd (TOF_implementation s i)) \<longleftrightarrow>
          approved_alarm_state s \<and> \<not> unat (tof_threshold s) \<le> T1 - T0))"
proof -
  note d = wrap_difference [OF assms]
  have on: "ton_threshold s \<le> millis_at T1 - millis_at T0 \<longleftrightarrow> unat (ton_threshold s) \<le> T1 - T0"
    using d by (simp add: word_le_nat_alt)
  have off: "tof_threshold s \<le> millis_at T1 - millis_at T0 \<longleftrightarrow> unat (tof_threshold s) \<le> T1 - T0"
    using d by (simp add: word_le_nat_alt)
  have 1: "(EnteredAlarm \<in> set (fst (TON_implementation s i)) \<longleftrightarrow>
              unat (ton_threshold s) \<le> T1 - T0) \<and>
           (approved_alarm_state (snd (TON_implementation s i)) \<longleftrightarrow>
              approved_alarm_state s \<or> unat (ton_threshold s) \<le> T1 - T0)"
    if "TON_running s" "ton_start_marker s = millis_at T0" "t_ton_check i = millis_at T1"
    using that on
    by (auto simp: TON_implementation_def Let_def EnteredAlarm_def report_def)
  have 2: "(ClearedAlarm \<in> set (fst (TOF_implementation s i)) \<longleftrightarrow>
              unat (tof_threshold s) \<le> T1 - T0) \<and>
           (approved_alarm_state (snd (TOF_implementation s i)) \<longleftrightarrow>
              approved_alarm_state s \<and> \<not> unat (tof_threshold s) \<le> T1 - T0)"
    if "TOF_running s" "tof_start_marker s = millis_at T0" "t_tof_check i = millis_at T1"
    using that off
    by (auto simp: TOF_implementation_def Let_def ClearedAlarm_def report_def)
  from d 1 2 show ?thesis by blast
qed

theorem elapsed_time_survives_clock_overflow_witness:
  "(4294967000 :: nat) \<le> 4294968800 \<and> (4294968800 :: nat) - 4294967000 < 2 ^ 32 \<and>
   millis_at 4294968800 < millis_at 4294967000 \<and>
   unat (millis_at 4294968800 - millis_at 4294967000) = 1800 \<and>
   EnteredAlarm \<in> set (fst (TON_implementation
     (wit_confirming\<lparr>ton_start_marker := millis_at 4294967000\<rparr>)
     (steady_cycle True (millis_at 4294968800)))) \<and>
   ClearedAlarm \<notin> set (fst (TOF_implementation
     (wit_clearing\<lparr>tof_start_marker := millis_at 4294967000\<rparr>)
     (steady_cycle False (millis_at 4294968500))))"
proof -
  have a: "(4294967000 :: nat) \<le> 4294968800" "(4294968800 :: nat) - 4294967000 < 2 ^ 32"
    and b: "(4294967000 :: nat) \<le> 4294968500" "(4294968500 :: nat) - 4294967000 < 2 ^ 32"
    by simp_all
  have c: "millis_at 4294968800 < millis_at 4294967000" by (simp add: millis_at_def)
  show ?thesis
    using elapsed_time_survives_clock_overflow [OF a,
        of "wit_confirming\<lparr>ton_start_marker := millis_at 4294967000\<rparr>"
           "steady_cycle True (millis_at 4294968800)"]
      elapsed_time_survives_clock_overflow [OF b,
        of "wit_clearing\<lparr>tof_start_marker := millis_at 4294967000\<rparr>"
           "steady_cycle False (millis_at 4294968500)"]
      a c
    by (simp add: wit_confirming_def wit_clearing_def steady_cycle_def)
qed

text \<open>
  C10. Start-up with the input already high: if the sample read in \<open>setup()\<close> is true,
  then as long as the samples stay true, for any number of cycles, and then as long as
  they stay false, no "Pump-relay_circuit_OPEN!" is sent and no timer runs: after each of
  these cycles the alarm is not approved, neither timer is running, and the last sampled
  value is the level of the input. (With no cycle at all this is the state after
  \<open>setup()\<close>: last value true, alarm not approved, no timer.)
\<close>

theorem high_input_at_power_on_starts_no_timer:
  assumes "first_sample b" and "\<forall>i\<in>set ins1. sample i" and "\<forall>i\<in>set ins2. \<not> sample i"
  shows "EnteredAlarm \<notin> set (fst (boot b (ins1 @ ins2))) \<and>
         (\<forall>s. snd (boot b (ins1 @ ins2)) = Some s \<longrightarrow>
            \<not> approved_alarm_state s \<and> \<not> TON_running s \<and> \<not> TOF_running s \<and>
            last_state s = (ins2 = []))"
proof -
  obtain out0 r0 where su: "setup_fn b = (out0, r0)" by (cases "setup_fn b")
  show ?thesis
  proof (cases r0)
    case None
    with su quiet_setup [of b] show ?thesis by (simp add: boot_def)
  next
    case (Some s0)
    from su Some have s0: "snd (setup_fn b) = Some s0" by simp
    note i0 = setup_state [OF s0]
    have q0: "EnteredAlarm \<notin> set out0" using quiet_setup [of b] su by simp
    obtain out1 r1 where r1: "run s0 ins1 = (out1, r1)" by (cases "run s0 ins1")
    from cleared_run_high [OF assms(2), of s0] i0 assms(1) r1
    have q1: "EnteredAlarm \<notin> set out1"
      and st1: "\<And>s1. r1 = Some s1 \<Longrightarrow>
        \<not> approved_alarm_state s1 \<and> \<not> TON_running s1 \<and> \<not> TOF_running s1 \<and> last_state s1"
      by simp_all
    show ?thesis
    proof (cases r1)
      case None
      with su Some r1 q0 q1 show ?thesis by (simp add: boot_def run_append)
    next
      case (Some s1)
      obtain out2 r2 where r2: "run s1 ins2 = (out2, r2)" by (cases "run s1 ins2")
      from cleared_run_low [OF assms(3), of s1] st1 [OF Some] r2
      have q2: "EnteredAlarm \<notin> set out2"
        and st2: "\<And>s2. r2 = Some s2 \<Longrightarrow>
          \<not> approved_alarm_state s2 \<and> \<not> TON_running s2 \<and> \<not> TOF_running s2 \<and>
          last_state s2 = (ins2 = [])"
        by auto
      from su \<open>r0 = Some s0\<close> r1 Some r2 q0 q1 q2 st2 show ?thesis
        by (auto simp: boot_def run_append)
    qed
  qed
qed

theorem high_input_at_power_on_starts_no_timer_witness:
  "first_sample wit_boot_high \<and>
   sample (steady_cycle True 0) \<and> sample (steady_cycle True 5000) \<and>
   \<not> sample (steady_cycle False 6000) \<and>
   EnteredAlarm \<notin> set (fst (boot wit_boot_high
     ([steady_cycle True 0, steady_cycle True 5000] @ [steady_cycle False 6000]))) \<and>
   map_option TON_running (snd (boot wit_boot_high
     ([steady_cycle True 0, steady_cycle True 5000] @ [steady_cycle False 6000]))) = Some False \<and>
   EnteredAlarm \<in> set (fst (boot wit_boot [steady_cycle True 0, steady_cycle True 5000]))"
proof -
  have a: "first_sample wit_boot_high" by (simp add: wit_boot_high_def)
  have b: "\<forall>i\<in>set [steady_cycle True 0, steady_cycle True 5000]. sample i"
    by (simp add: steady_cycle_def)
  have c: "\<forall>i\<in>set [steady_cycle False 6000]. \<not> sample i"
    by (simp add: steady_cycle_def)
  have d: "snd (boot wit_boot_high
     ([steady_cycle True 0, steady_cycle True 5000] @ [steady_cycle False 6000])) \<noteq> None"
    by (simp add: eval_defs wit_boot_high_def)
  have e: "EnteredAlarm \<in> set (fst (boot wit_boot [steady_cycle True 0, steady_cycle True 5000]))"
    by (simp add: eval_defs EnteredAlarm_def)
  show ?thesis
    using high_input_at_power_on_starts_no_timer [OF a b c] a b c d e by auto
qed

end
